theory Spec2Isabelle
  imports Main "HOL-Library.Multiset" "HOL-Library.Sublist" "HOL-Library.Word"
begin

section \<open>Data model\<close>

text \<open>
  The exceptions the codec can raise. None of them is raised by a \<^verbatim>\<open>raise\<close> statement
  of the program: \<open>IndexError\<close> comes from \<^verbatim>\<open>heap[0]\<close> and from \<^verbatim>\<open>heap.pop()\<close> on an
  empty list, \<open>ValueError\<close> from \<^verbatim>\<open>int(s, 2)\<close>, \<open>KeyError\<close> from \<^verbatim>\<open>self.codes[char]\<close>.
\<close>

datatype error = IndexError | ValueError | KeyError

text \<open>
  \<^verbatim>\<open>class BinaryTreeNode\<close>: the fields \<^verbatim>\<open>value\<close>, \<^verbatim>\<open>freq\<close>, \<^verbatim>\<open>left\<close>, \<^verbatim>\<open>right\<close>.
  Python's \<^verbatim>\<open>None\<close> is \<open>None\<close>; a frequency is a count of occurrences or a sum of
  such counts, a natural number. Symbols (the characters of a Python string) are
  any type \<open>'a\<close>.
\<close>

datatype 'a BinaryTreeNode =
  BinaryTreeNode (val: "'a option") (freq: nat)
    (left: "'a BinaryTreeNode option") (right: "'a BinaryTreeNode option")

text \<open>\<^verbatim>\<open>BinaryTreeNode.__init__(value, freq)\<close>: both children start as \<^verbatim>\<open>None\<close>.\<close>

definition new_node :: "'a option \<Rightarrow> nat \<Rightarrow> 'a BinaryTreeNode" where
  "new_node v f = BinaryTreeNode v f None None"

text \<open>\<^verbatim>\<open>BinaryTreeNode.__lt__\<close>: the frequencies alone are compared.\<close>

definition node_lt :: "'a BinaryTreeNode \<Rightarrow> 'a BinaryTreeNode \<Rightarrow> bool" where
  "node_lt self other = (freq self < freq other)"

text \<open>
  \<^verbatim>\<open>class FileCompression\<close>: the two dictionaries of the instance. The field
  \<^verbatim>\<open>path\<close> only names the files that are read and written; the text read from the
  file and the bytes written to it are arguments and results here.
\<close>

record 'a FileCompression =
  codes :: "'a \<rightharpoonup> string"
  reverse_codes :: "string \<rightharpoonup> 'a"

text \<open>\<^verbatim>\<open>FileCompression.__init__\<close>: both dictionaries start empty.\<close>

definition init :: "'a FileCompression" where
  "init = \<lparr>codes = Map.empty, reverse_codes = Map.empty\<rparr>"

section \<open>Frequency analysis\<close>

text \<open>
  \<^verbatim>\<open>{char: text.count(char) for char in set(text)}\<close>. The order in which Python iterates
  over \<^verbatim>\<open>set(text)\<close> is not fixed by the language (string hashes are randomised per
  process), and the dictionary keeps that order as its insertion order, which is the
  order \<^verbatim>\<open>_build_heap\<close> pushes the leaves in. The iteration order is therefore an
  argument \<open>ks\<close>: any list without repetition of the symbols of the text.
\<close>

definition set_iteration :: "'a list \<Rightarrow> 'a list \<Rightarrow> bool" where
  "set_iteration text ks = (distinct ks \<and> set ks = set text)"

definition build_frequency_dict :: "'a list \<Rightarrow> 'a list \<Rightarrow> ('a \<times> nat) list" where
  "build_frequency_dict ks text = map (\<lambda>char. (char, count_list text char)) ks"

section \<open>The heap (Python's \<^verbatim>\<open>heapq\<close> on a list of nodes)\<close>

text \<open>
  The program imports \<^verbatim>\<open>heapq\<close> from Python's standard library. \<^verbatim>\<open>heappush\<close> and
  \<^verbatim>\<open>heappop\<close> are modelled as the module defines them, on a list of nodes compared
  with \<^verbatim>\<open>BinaryTreeNode.__lt__\<close>. Every index read or written on a path from
  \<^verbatim>\<open>heappush\<close> or \<^verbatim>\<open>heappop\<close> lies within the list, so no access of the model is
  out of range.
\<close>

text \<open>
  \<^verbatim>\<open>heapq._siftdown(heap, startpos, pos)\<close>: the item at \<open>pos\<close> moves towards the root
  while it is smaller than its parent. The loop variable \<^verbatim>\<open>newitem\<close> is an argument.
\<close>

function siftdown_loop ::
  "'a BinaryTreeNode list \<Rightarrow> nat \<Rightarrow> nat \<Rightarrow> 'a BinaryTreeNode \<Rightarrow> 'a BinaryTreeNode list" where
  "siftdown_loop heap startpos pos newitem =
     (if pos > startpos then
        (let parentpos = (pos - 1) div 2;
             parent = heap ! parentpos
         in if node_lt newitem parent
            then siftdown_loop (heap[pos := parent]) startpos parentpos newitem
            else heap[pos := newitem])
      else heap[pos := newitem])"
  by pat_completeness auto
termination
  by (relation "measure (\<lambda>(heap, startpos, pos, newitem). pos)") auto

declare siftdown_loop.simps [simp del]

definition siftdown :: "'a BinaryTreeNode list \<Rightarrow> nat \<Rightarrow> nat \<Rightarrow> 'a BinaryTreeNode list" where
  "siftdown heap startpos pos = siftdown_loop heap startpos pos (heap ! pos)"

text \<open>
  \<^verbatim>\<open>heapq._siftup(heap, pos)\<close>: the smaller child is moved up until a leaf position is
  reached (on a tie the right child is taken), the item is put there and sifted
  back down towards \<open>startpos\<close>.
\<close>

function siftup_loop ::
  "'a BinaryTreeNode list \<Rightarrow> nat \<Rightarrow> nat \<Rightarrow> 'a BinaryTreeNode list \<times> nat" where
  "siftup_loop heap endpos pos =
     (let childpos = 2 * pos + 1
      in if childpos < endpos then
           (let rightpos = childpos + 1;
                childpos' = (if rightpos < endpos \<and> \<not> node_lt (heap ! childpos) (heap ! rightpos)
                             then rightpos else childpos)
            in siftup_loop (heap[pos := heap ! childpos']) endpos childpos')
         else (heap, pos))"
  by pat_completeness auto
termination
  by (relation "measure (\<lambda>(heap, endpos, pos). endpos - pos)") (auto simp: Let_def)

declare siftup_loop.simps [simp del]

definition siftup :: "'a BinaryTreeNode list \<Rightarrow> nat \<Rightarrow> 'a BinaryTreeNode list" where
  "siftup heap pos =
     (let endpos = length heap;
          startpos = pos;
          newitem = heap ! pos;
          (heap', pos') = siftup_loop heap endpos pos
      in siftdown (heap'[pos' := newitem]) startpos pos')"

text \<open>\<^verbatim>\<open>heapq.heappush(heap, item)\<close>.\<close>

definition heappush :: "'a BinaryTreeNode list \<Rightarrow> 'a BinaryTreeNode \<Rightarrow> 'a BinaryTreeNode list" where
  "heappush heap item = siftdown (heap @ [item]) 0 (length heap)"

text \<open>
  \<^verbatim>\<open>heapq.heappop(heap)\<close>: \<^verbatim>\<open>heap.pop()\<close> raises \<open>IndexError\<close> on the empty list. The
  result is the popped item and the list as the call leaves it.
\<close>

definition heappop ::
  "'a BinaryTreeNode list \<Rightarrow> error + ('a BinaryTreeNode \<times> 'a BinaryTreeNode list)" where
  "heappop heap =
     (if heap = [] then Inl IndexError
      else (let lastelt = last heap;
                heap1 = butlast heap
            in if heap1 \<noteq> [] then
                 (let returnitem = heap1 ! 0
                  in Inr (returnitem, siftup (heap1[0 := lastelt]) 0))
               else Inr (lastelt, heap1)))"

text \<open>\<^verbatim>\<open>_build_heap\<close>: one leaf per entry of the dictionary, pushed in its order.\<close>

definition build_heap :: "('a \<times> nat) list \<Rightarrow> 'a BinaryTreeNode list" where
  "build_heap freq_dict =
     foldl (\<lambda>heap (v, f). heappush heap (new_node (Some v) f)) [] freq_dict"

subsection \<open>Length and content of the heap list\<close>

lemma length_siftdown_loop [simp]:
  "length (siftdown_loop heap startpos pos newitem) = length heap"
  by (induction heap startpos pos newitem rule: siftdown_loop.induct)
     (subst siftdown_loop.simps, simp add: Let_def)

lemma mset_update_swap:
  assumes "i < length h" "j < length h" "i \<noteq> j"
  shows "mset (h[i := h ! j, j := x]) = mset (h[i := x])"
proof -
  let ?l = "h[i := x]"
  have "mset (?l[j := ?l ! i, i := ?l ! j]) = mset ?l"
    using assms by (intro mset_swap) simp_all
  moreover have "?l[j := ?l ! i, i := ?l ! j] = h[i := h ! j, j := x]"
    using assms by (auto simp: list_eq_iff_nth_eq nth_list_update)
  ultimately show ?thesis by simp
qed

lemma mset_siftdown_loop:
  "pos < length heap \<Longrightarrow>
   mset (siftdown_loop heap startpos pos newitem) = mset (heap[pos := newitem])"
proof (induction heap startpos pos newitem rule: siftdown_loop.induct)
  case (1 heap startpos pos newitem)
  show ?case
  proof (cases "pos > startpos \<and> node_lt newitem (heap ! ((pos - 1) div 2))")
    case True
    then have lt: "(pos - 1) div 2 < pos" by auto
    have "mset (siftdown_loop heap startpos pos newitem) =
          mset (heap[pos := heap ! ((pos - 1) div 2), (pos - 1) div 2 := newitem])"
      using True 1 lt by (subst siftdown_loop.simps) (simp add: Let_def)
    also have "\<dots> = mset (heap[pos := newitem])"
      using lt 1(2) by (intro mset_update_swap) auto
    finally show ?thesis .
  next
    case False
    then show ?thesis by (subst siftdown_loop.simps) (auto simp: Let_def)
  qed
qed

lemma siftup_loop_props:
  "siftup_loop heap endpos pos = (heap', pos') \<Longrightarrow> pos < endpos \<Longrightarrow> endpos \<le> length heap \<Longrightarrow>
   length heap' = length heap \<and> pos' < endpos \<and>
   mset (heap'[pos' := x]) = mset (heap[pos := x])"
proof (induction heap endpos pos arbitrary: heap' pos' rule: siftup_loop.induct)
  case (1 heap endpos pos)
  show ?case
  proof (cases "2 * pos + 1 < endpos")
    case False
    with 1(2) have "heap' = heap" "pos' = pos"
      by (subst (asm) siftup_loop.simps, simp)+
    with 1 show ?thesis by simp
  next
    case True
    define c where "c = (if 2 * pos + 1 + 1 < endpos \<and> \<not> node_lt (heap ! (2 * pos + 1)) (heap ! (2 * pos + 1 + 1))
                             then 2 * pos + 1 + 1 else 2 * pos + 1)"
    have c: "c < endpos" "pos < c" using True by (auto simp: c_def)
    have "siftup_loop heap endpos pos = siftup_loop (heap[pos := heap ! c]) endpos c"
      using True unfolding c_def by (subst siftup_loop.simps) (simp add: Let_def)
    with 1(2) have rec: "siftup_loop (heap[pos := heap ! c]) endpos c = (heap', pos')"
      by simp
    have ih: "length heap' = length (heap[pos := heap ! c]) \<and> pos' < endpos \<and>
       mset (heap'[pos' := x]) = mset (heap[pos := heap ! c, c := x])"
      using 1(1)[OF refl True refl _ rec c(1)] 1(4) by (simp add: c_def)
    have "mset (heap[pos := heap ! c, c := x]) = mset (heap[pos := x])"
      using c 1(3,4) by (intro mset_update_swap) auto
    with ih show ?thesis by simp
  qed
qed

lemma length_siftup [simp]: "pos < length heap \<Longrightarrow> length (siftup heap pos) = length heap"
  by (auto simp: siftup_def siftdown_def Let_def split: prod.splits dest: siftup_loop_props)

lemma mset_siftup: "pos < length heap \<Longrightarrow> mset (siftup heap pos) = mset heap"
proof -
  assume p: "pos < length heap"
  obtain h' p' where s: "siftup_loop heap (length heap) pos = (h', p')" by force
  from siftup_loop_props[OF s p, of "heap ! pos"]
  have a: "length h' = length heap" "p' < length heap" "mset (h'[p' := heap ! pos]) = mset heap"
    by simp_all
  show ?thesis using a s
    by (simp add: siftup_def siftdown_def Let_def mset_siftdown_loop)
qed

lemma length_heappush [simp]: "length (heappush heap item) = Suc (length heap)"
  by (simp add: heappush_def siftdown_def)

lemma mset_heappush: "mset (heappush heap item) = add_mset item (mset heap)"
  by (simp add: heappush_def siftdown_def mset_siftdown_loop)

lemma heappop_Inr:
  assumes "heappop heap = Inr (x, heap')"
  shows "heap \<noteq> [] \<and> Suc (length heap') = length heap \<and> mset heap = add_mset x (mset heap')"
proof -
  have ne: "heap \<noteq> []" using assms by (auto simp: heappop_def)
  then obtain h1 l where h: "heap = h1 @ [l]" by (metis append_butlast_last_id)
  show ?thesis
  proof (cases "h1 = []")
    case True
    with assms h show ?thesis by (simp add: heappop_def)
  next
    case False
    then have "0 < length h1" by simp
    with assms h False have x: "x = h1 ! 0" "heap' = siftup (h1[0 := l]) 0"
      by (simp_all add: heappop_def Let_def)
    have "mset (h1[0 := l]) = add_mset l (mset h1 - {#h1 ! 0#})"
      using False by (simp add: mset_update)
    then show ?thesis using x h False by (simp add: mset_siftup)
  qed
qed

lemma heappop_Inl: "heappop heap = Inl e \<longleftrightarrow> heap = [] \<and> e = IndexError"
  by (auto simp: heappop_def Let_def)

section \<open>Tree construction and code derivation\<close>

text \<open>
  \<^verbatim>\<open>_build_huffman_tree\<close>: while the heap has more than one node, the two nodes popped
  first become the left and the right child of a new node without a value. The final
  \<^verbatim>\<open>heap[0]\<close> raises \<open>IndexError\<close> on the empty list.
\<close>

function build_huffman_tree :: "'a BinaryTreeNode list \<Rightarrow> error + 'a BinaryTreeNode" where
  "build_huffman_tree heap =
     (if length heap > 1 then
        (case heappop heap of
           Inl e \<Rightarrow> Inl e
         | Inr (left_node, heap1) \<Rightarrow>
             (case heappop heap1 of
                Inl e \<Rightarrow> Inl e
              | Inr (right_node, heap2) \<Rightarrow>
                  (let merged = BinaryTreeNode None (freq left_node + freq right_node)
                                  (Some left_node) (Some right_node)
                   in build_huffman_tree (heappush heap2 merged))))
      else (case heap of [] \<Rightarrow> Inl IndexError | root # _ \<Rightarrow> Inr root))"
  by pat_completeness auto
termination
proof (relation "measure length", goal_cases)
  case 1
  show ?case by simp
next
  case (2 heap x2 left_node heap1 x2a right_node heap2 merged)
  from heappop_Inr[of heap left_node heap1] heappop_Inr[of heap1 right_node heap2] 2
  show ?case by simp
qed

declare build_huffman_tree.simps [simp del]

text \<open>
  \<^verbatim>\<open>_generate_codes(node, code)\<close>: a node with a value enters both dictionaries, then
  the left child is visited with \<^verbatim>\<open>code + "0"\<close> and the right child with
  \<^verbatim>\<open>code + "1"\<close>. The dictionaries of the instance are the state passed along.
\<close>

fun generate_codes ::
  "'a BinaryTreeNode option \<Rightarrow> string \<Rightarrow> 'a FileCompression \<Rightarrow> 'a FileCompression" where
  "generate_codes None code st = st"
| "generate_codes (Some (BinaryTreeNode v f l r)) code st =
     (let st1 = (case v of
                   None \<Rightarrow> st
                 | Some c \<Rightarrow> st\<lparr>codes := (codes st)(c \<mapsto> code),
                                 reverse_codes := (reverse_codes st)(code \<mapsto> c)\<rparr>);
          st2 = generate_codes l (code @ ''0'') st1
      in generate_codes r (code @ ''1'') st2)"

section \<open>Encoding, padding and bytes\<close>

text \<open>
  \<^verbatim>\<open>''.join(self.codes[char] for char in text)\<close>: a symbol without a code raises
  \<open>KeyError\<close>.
\<close>

fun encode_text :: "'a FileCompression \<Rightarrow> 'a list \<Rightarrow> error + string" where
  "encode_text st [] = Inr []"
| "encode_text st (char # text) =
     (case codes st char of
        None \<Rightarrow> Inl KeyError
      | Some code \<Rightarrow>
          (case encode_text st text of Inl e \<Rightarrow> Inl e | Inr rest \<Rightarrow> Inr (code @ rest)))"

text \<open>
  \<^verbatim>\<open>f"{n:08b}"\<close>: the binary digits of \<open>n\<close>, most significant first, filled with
  zeros on the left to a width of at least 8.
\<close>

fun bin_digits :: "nat \<Rightarrow> string" where
  "bin_digits n =
     (if n < 2 then [if n = 1 then CHR ''1'' else CHR ''0'']
      else bin_digits (n div 2) @ [if n mod 2 = 1 then CHR ''1'' else CHR ''0''])"

declare bin_digits.simps [simp del]

definition format_08b :: "nat \<Rightarrow> string" where
  "format_08b n = replicate (8 - length (bin_digits n)) (CHR ''0'') @ bin_digits n"

text \<open>
  \<^verbatim>\<open>int(s, 2)\<close> on the strings the program passes to it, which hold no character
  other than 0 and 1: the empty string raises \<open>ValueError\<close>.
\<close>

definition binary :: "string \<Rightarrow> bool" where
  "binary s = list_all (\<lambda>c. c = CHR ''0'' \<or> c = CHR ''1'') s"

definition bin_val :: "string \<Rightarrow> nat" where
  "bin_val s = foldl (\<lambda>acc c. 2 * acc + (if c = CHR ''1'' then 1 else 0)) 0 s"

definition int2 :: "string \<Rightarrow> error + nat" where
  "int2 s = (if s = [] \<or> \<not> binary s then Inl ValueError else Inr (bin_val s))"

text \<open>\<^verbatim>\<open>_add_padding\<close>.\<close>

definition add_padding :: "string \<Rightarrow> string" where
  "add_padding encoded_text =
     (let padding = 8 - length encoded_text mod 8
      in format_08b padding @ encoded_text @ replicate padding (CHR ''0''))"

text \<open>
  \<^verbatim>\<open>_convert_to_bytes\<close>: one byte per slice of 8 characters; \<^verbatim>\<open>bytearray\<close> raises
  \<open>ValueError\<close> for a number outside \<open>range(256)\<close>.
\<close>

type_synonym byte = "8 word"

fun convert_to_bytes :: "string \<Rightarrow> error + byte list" where
  "convert_to_bytes s =
     (if s = [] then Inr []
      else (case int2 (take 8 s) of
              Inl e \<Rightarrow> Inl e
            | Inr b \<Rightarrow>
                if b < 256 then
                  (case convert_to_bytes (drop 8 s) of
                     Inl e \<Rightarrow> Inl e
                   | Inr bs \<Rightarrow> Inr (word_of_nat b # bs))
                else Inl ValueError))"

declare convert_to_bytes.simps [simp del]

section \<open>The codec\<close>

text \<open>
  \<^verbatim>\<open>compress\<close>: \<open>text\<close> is what is read from the input file, \<open>ks\<close> the order in which
  \<^verbatim>\<open>set(text)\<close> is iterated. The result is the instance after the call and the bytes
  written to the output file; an exception leaves no output file, since the file is
  opened for writing after the bytes are computed.
\<close>

definition compress ::
  "'a list \<Rightarrow> 'a FileCompression \<Rightarrow> 'a list \<Rightarrow> error + ('a FileCompression \<times> byte list)" where
  "compress ks st text =
     (let freq_dict = build_frequency_dict ks text;
          heap = build_heap freq_dict
      in case build_huffman_tree heap of
           Inl e \<Rightarrow> Inl e
         | Inr root \<Rightarrow>
             (let st' = generate_codes (Some root) [] st
              in case encode_text st' text of
                   Inl e \<Rightarrow> Inl e
                 | Inr encoded_text \<Rightarrow>
                     (let padded_encoded_text = add_padding encoded_text
                      in case convert_to_bytes padded_encoded_text of
                           Inl e \<Rightarrow> Inl e
                         | Inr byte_data \<Rightarrow> Inr (st', byte_data))))"

text \<open>
  \<^verbatim>\<open>_remove_padding\<close>: the slice \<^verbatim>\<open>bit_string[8:-padding_size]\<close> stops at
  \<open>length - padding_size\<close>, or at 0 when that is negative, and is empty when the stop
  is not beyond 8.
\<close>

definition remove_padding :: "string \<Rightarrow> error + string" where
  "remove_padding bit_string =
     (let padding_info = take 8 bit_string
      in case int2 padding_info of
           Inl e \<Rightarrow> Inl e
         | Inr padding_size \<Rightarrow>
             Inr (if padding_size \<noteq> 0
                  then drop 8 (take (length bit_string - padding_size) bit_string)
                  else drop 8 bit_string))"

text \<open>
  \<^verbatim>\<open>_decode_text\<close>: the loop over the bits, with the loop variables \<^verbatim>\<open>current_code\<close>
  and \<^verbatim>\<open>decoded_text\<close>; the function returns \<^verbatim>\<open>decoded_text\<close> only.
\<close>

fun decode_text_loop ::
  "'a FileCompression \<Rightarrow> string \<Rightarrow> string \<Rightarrow> 'a list \<Rightarrow> string \<times> 'a list" where
  "decode_text_loop st [] current_code decoded_text = (current_code, decoded_text)"
| "decode_text_loop st (bit_c # bits) current_code decoded_text =
     (let current_code = current_code @ [bit_c]
      in case reverse_codes st current_code of
           Some v \<Rightarrow> decode_text_loop st bits [] (decoded_text @ [v])
         | None \<Rightarrow> decode_text_loop st bits current_code decoded_text)"

definition decode_text :: "'a FileCompression \<Rightarrow> string \<Rightarrow> 'a list" where
  "decode_text st bit_string = snd (decode_text_loop st bit_string [] [])"

text \<open>
  \<^verbatim>\<open>decompress\<close>: \<open>data\<close> is the content of the input file, read byte by byte; the
  result is the text written to the output file.
\<close>

definition decompress :: "'a FileCompression \<Rightarrow> byte list \<Rightarrow> error + 'a list" where
  "decompress st data =
     (let bit_string = concat (map (\<lambda>byte. format_08b (unat byte)) data)
      in case remove_padding bit_string of
           Inl e \<Rightarrow> Inl e
         | Inr bit_string \<Rightarrow> Inr (decode_text st bit_string))"

section \<open>Binary digits\<close>

lemma binary_simps [simp]:
  "binary []" "binary (c # s) \<longleftrightarrow> (c = CHR ''0'' \<or> c = CHR ''1'') \<and> binary s"
  "binary (s @ t) \<longleftrightarrow> binary s \<and> binary t"
  "binary (replicate n (CHR ''0''))"
  by (auto simp: binary_def list_all_iff)

lemma binary_take: "binary s \<Longrightarrow> binary (take n s)"
  by (auto simp: binary_def list_all_iff dest: in_set_takeD)

lemma binary_drop: "binary s \<Longrightarrow> binary (drop n s)"
  by (auto simp: binary_def list_all_iff dest: in_set_dropD)

lemma bin_val_Nil [simp]: "bin_val [] = 0"
  by (simp add: bin_val_def)

lemma bin_val_snoc [simp]:
  "bin_val (s @ [c]) = 2 * bin_val s + (if c = CHR ''1'' then 1 else 0)"
  by (simp add: bin_val_def)

lemma bin_val_zeros [simp]: "bin_val (replicate n (CHR ''0'')) = 0"
proof (induction n)
  case 0
  show ?case by simp
next
  case (Suc n)
  have "replicate (Suc n) (CHR ''0'') = replicate n (CHR ''0'') @ [CHR ''0'']"
    by (simp add: replicate_append_same)
  with Suc show ?case by (simp del: replicate_Suc)
qed

lemma bin_val_append: "bin_val (s @ t) = bin_val s * 2 ^ length t + bin_val t"
proof (induction t rule: rev_induct)
  case Nil
  show ?case by simp
next
  case (snoc c t)
  have "bin_val (s @ t @ [c]) = bin_val ((s @ t) @ [c])" by simp
  also have "\<dots> = 2 * bin_val (s @ t) + (if c = CHR ''1'' then 1 else 0)"
    by (rule bin_val_snoc)
  finally show ?case using snoc by (simp add: algebra_simps)
qed

lemma binary_bin_digits [simp]: "binary (bin_digits n)"
  by (induction n rule: bin_digits.induct) (subst bin_digits.simps, simp)

lemma bin_val_bin_digits [simp]: "bin_val (bin_digits n) = n"
proof (induction n rule: bin_digits.induct)
  case (1 n)
  show ?case
  proof (cases "n < 2")
    case True
    then have "n = 0 \<or> n = 1" by auto
    then show ?thesis
      by (subst bin_digits.simps) (auto simp: bin_val_def)
  next
    case False
    with 1 have "bin_val (bin_digits (n div 2)) = n div 2" by simp
    with False show ?thesis
      by (subst bin_digits.simps) (simp, presburger)
  qed
qed

lemma bin_digits_nonempty [simp]: "bin_digits n \<noteq> []"
  by (subst bin_digits.simps) simp

lemma length_bin_digits: "0 < k \<Longrightarrow> n < 2 ^ k \<Longrightarrow> length (bin_digits n) \<le> k"
proof (induction n arbitrary: k rule: bin_digits.induct)
  case (1 n)
  show ?case
  proof (cases "n < 2")
    case True
    with 1(2) show ?thesis by (subst bin_digits.simps) simp
  next
    case False
    obtain j where k: "k = Suc j" using 1(2) by (cases k) auto
    from False 1(3) k have j: "0 < j" by (cases j) auto
    from 1(3) k have "n div 2 < 2 ^ j" by auto
    from 1(1)[OF False j this] False k show ?thesis
      by (subst bin_digits.simps) simp
  qed
qed

lemma length_format_08b [simp]: "n < 256 \<Longrightarrow> length (format_08b n) = 8"
  using length_bin_digits[of 8 n] by (simp add: format_08b_def)

lemma binary_format_08b [simp]: "binary (format_08b n)"
  by (simp add: format_08b_def)

lemma bin_val_format_08b [simp]: "bin_val (format_08b n) = n"
  by (simp add: format_08b_def bin_val_append)

lemma format_08b_nonempty [simp]: "format_08b n \<noteq> []"
  by (simp add: format_08b_def)

lemma int2_format_08b [simp]: "int2 (format_08b n) = Inr n"
  by (simp add: int2_def)

lemma bin_val_inj:
  "length s = length t \<Longrightarrow> binary s \<Longrightarrow> binary t \<Longrightarrow> bin_val s = bin_val t \<Longrightarrow> s = t"
proof (induction s arbitrary: t rule: rev_induct)
  case Nil
  then show ?case by simp
next
  case (snoc c s)
  from snoc(2) obtain d t' where t: "t = t' @ [d]"
    by (cases t rule: rev_cases) auto
  from snoc(3,4,5) t have
    "2 * bin_val s + (if c = CHR ''1'' then 1 else 0) = 2 * bin_val t' + (if d = CHR ''1'' then 1 else (0::nat))"
    and cd: "c = CHR ''0'' \<or> c = CHR ''1''" "d = CHR ''0'' \<or> d = CHR ''1''"
    by auto
  then have "bin_val s = bin_val t' \<and> c = d"
    by (auto split: if_splits) presburger+
  with snoc t show ?case by auto
qed

lemma bin_val_bound: "bin_val s < 2 ^ length s"
proof (induction s rule: rev_induct)
  case Nil show ?case by simp
next
  case (snoc c s)
  then show ?case by auto
qed

lemma format_08b_bin_val: "length s = 8 \<Longrightarrow> binary s \<Longrightarrow> format_08b (bin_val s) = s"
proof -
  assume l: "length s = 8" and b: "binary s"
  have "bin_val s < 256" using bin_val_bound[of s] l by simp
  then have "length (format_08b (bin_val s)) = length s" using l by simp
  then show ?thesis using b by (intro bin_val_inj) simp_all
qed

section \<open>Counting\<close>

lemma sum_list_counts:
  "distinct ks \<Longrightarrow> set ks = set text \<Longrightarrow> sum_list (map (count_list text) ks) = length text"
proof -
  assume d: "distinct ks" and s: "set ks = set text"
  have "sum_list (map (count_list text) ks) = sum (count_list text) (set ks)"
    using d by (simp add: sum_list_distinct_conv_sum_set)
  also have "\<dots> = length text"
    using s by (simp add: sum_count_set)
  finally show ?thesis .
qed

section \<open>The smallest heaps\<close>

lemma build_huffman_tree_Nil: "build_huffman_tree [] = Inl IndexError"
  by (subst build_huffman_tree.simps) simp

lemma build_huffman_tree_single: "build_huffman_tree [t] = Inr t"
  by (subst build_huffman_tree.simps) simp

lemma heappush_Nil: "heappush [] t = [t]"
  by (simp add: heappush_def siftdown_def siftdown_loop.simps)

section \<open>The bits of a byte buffer\<close>

lemma drop_header_take:
  assumes "length f = 8"
  shows "drop 8 (take (length (f @ r) - p) (f @ r)) = take (length r - p) r"
proof (cases "p \<le> length r")
  case True
  then have "length (f @ r) - p = length f + (length r - p)" using assms by simp
  then have "take (length (f @ r) - p) (f @ r) = f @ take (length r - p) r"
    by (simp del: length_append)
  then show ?thesis using assms by simp
next
  case False
  then have "length (take (length (f @ r) - p) (f @ r)) \<le> 8" using assms by simp
  then have "drop 8 (take (length (f @ r) - p) (f @ r)) = []" by (simp del: length_append take_append)
  then show ?thesis using False by simp
qed

lemma count_list_replicate [simp]: "count_list (replicate n a) a = n"
  by (induction n) simp_all

lemma length_bits_of_bytes:
  "length (concat (map (\<lambda>byte. format_08b (unat byte)) (bs :: byte list))) = 8 * length bs"
proof (induction bs)
  case Nil show ?case by simp
next
  case (Cons b bs)
  have "unat b < 256" using unsigned_less[of b] by simp
  with Cons show ?case by simp
qed

section \<open>Encoding a repeated symbol\<close>

lemma encode_text_replicate:
  "codes st a = Some w \<Longrightarrow> encode_text st (replicate n a) = Inr (concat (replicate n w))"
  by (induction n) simp_all

section \<open>The codes a tree assigns\<close>

text \<open>
  The assignments \<^verbatim>\<open>_generate_codes(node, code)\<close> makes, in the order it makes them: a
  pair of symbol and code for every node with a value, the node first, then its left
  subtree, then its right subtree.
\<close>

fun code_list :: "'a BinaryTreeNode option \<Rightarrow> string \<Rightarrow> ('a \<times> string) list" where
  "code_list None code = []"
| "code_list (Some (BinaryTreeNode v f l r)) code =
     (case v of None \<Rightarrow> [] | Some c \<Rightarrow> [(c, code)])
     @ code_list l (code @ ''0'') @ code_list r (code @ ''1'')"

text \<open>One assignment: the two statements \<^verbatim>\<open>self.codes[value] = code\<close> and
  \<^verbatim>\<open>self.reverse_codes[code] = value\<close>.\<close>

definition assign :: "'a FileCompression \<Rightarrow> 'a \<times> string \<Rightarrow> 'a FileCompression" where
  "assign st e = st\<lparr>codes := (codes st)(fst e \<mapsto> snd e),
                    reverse_codes := (reverse_codes st)(snd e \<mapsto> fst e)\<rparr>"

text \<open>
  The shape of the nodes the program builds: a leaf has a value and no children
  (\<^verbatim>\<open>_build_heap\<close>), a merged node has no value and two children
  (\<^verbatim>\<open>_build_huffman_tree\<close>).
\<close>

fun wf_node :: "'a BinaryTreeNode \<Rightarrow> bool" where
  "wf_node (BinaryTreeNode v f l r) =
     (case (v, l, r) of
        (Some c, None, None) \<Rightarrow> True
      | (None, Some lt, Some rt) \<Rightarrow> wf_node lt \<and> wf_node rt
      | _ \<Rightarrow> False)"

text \<open>The symbols of a tree, in the order of the traversal.\<close>

definition syms :: "'a BinaryTreeNode \<Rightarrow> 'a list" where
  "syms t = map fst (code_list (Some t) [])"

lemma generate_codes_foldl:
  "generate_codes t code st = foldl assign st (code_list t code)"
proof (induction t code st rule: generate_codes.induct)
  case (1 code st)
  show ?case by simp
next
  case (2 v f l r code st)
  show ?case
  proof (cases v)
    case None
    with 2 show ?thesis by (simp add: Let_def)
  next
    case (Some c)
    with 2 show ?thesis by (simp add: Let_def assign_def)
  qed
qed

lemma codes_foldl_assign:
  "codes (foldl assign st xs) = codes st ++ map_of (rev xs)"
  by (induction xs arbitrary: st) (auto simp: assign_def map_add_def fun_eq_iff split: option.splits)

lemma reverse_codes_foldl_assign:
  "reverse_codes (foldl assign st xs) = reverse_codes st ++ map_of (rev (map (\<lambda>e. (snd e, fst e)) xs))"
  by (induction xs arbitrary: st) (auto simp: assign_def map_add_def fun_eq_iff split: option.splits)

lemma fst_code_list: "map fst (code_list t code) = map fst (code_list t code')"
proof (induction t code arbitrary: code' rule: code_list.induct)
  case (1 code)
  show ?case by simp
next
  case (2 v f l r code)
  from 2[of "code' @ ''0''"] 2(2)[of "code' @ ''1''"] show ?case
    by (simp split: option.splits)
qed

lemma fst_code_list_syms: "map fst (code_list (Some t) code) = syms t"
  unfolding syms_def by (rule fst_code_list)

lemma code_list_prefix: "e \<in> set (code_list t code) \<Longrightarrow> prefix code (snd e)"
proof (induction t code rule: code_list.induct)
  case (1 code)
  then show ?case by simp
next
  case (2 v f l r code)
  note ih = "2.IH" and mem = "2.prems"
  from mem consider (a) "snd e = code"
    | (b) "e \<in> set (code_list l (code @ ''0''))" | (c) "e \<in> set (code_list r (code @ ''1''))"
    by (auto split: option.splits)
  then show ?case
  proof cases
    case a then show ?thesis by simp
  next
    case b with ih(1) show ?thesis by (auto dest: append_prefixD)
  next
    case c with ih(2) show ?thesis by (auto dest: append_prefixD)
  qed
qed

lemma code_list_binary: "binary code \<Longrightarrow> e \<in> set (code_list t code) \<Longrightarrow> binary (snd e)"
proof (induction t code rule: code_list.induct)
  case (1 code)
  then show ?case by simp
next
  case (2 v f l r code)
  note ih = "2.IH" and bin = "2.prems"(1) and mem = "2.prems"(2)
  from mem consider (a) "snd e = code"
    | (b) "e \<in> set (code_list l (code @ ''0''))" | (c) "e \<in> set (code_list r (code @ ''1''))"
    by (auto split: option.splits)
  then show ?case
  proof cases
    case a with bin show ?thesis by simp
  next
    case b with ih(1) bin show ?thesis by simp
  next
    case c with ih(2) bin show ?thesis by simp
  qed
qed

lemma wf_node_cases:
  assumes "wf_node t"
  obtains (leaf) c f where "t = BinaryTreeNode (Some c) f None None"
  | (internal) f lt rt where "t = BinaryTreeNode None f (Some lt) (Some rt)" "wf_node lt" "wf_node rt"
  using assms by (cases t) (auto split: option.splits)

lemma prefix_snoc_diff: "prefix (c @ [a]) v \<Longrightarrow> prefix (c @ [b]) v \<Longrightarrow> a = b"
  by (auto simp: prefix_def append_eq_append_conv2 Cons_eq_append_conv)

text \<open>A list of codes without repetition in which no code is a prefix of another.\<close>

definition prefix_free :: "string list \<Rightarrow> bool" where
  "prefix_free ws = (distinct ws \<and> (\<forall>u \<in> set ws. \<forall>v \<in> set ws. prefix u v \<longrightarrow> u = v))"

lemma wf_node_prefix_free:
  "wf_node t \<Longrightarrow> prefix_free (map snd (code_list (Some t) code))"
proof (induction t arbitrary: code rule: wf_node.induct)
  case (1 v f l r)
  from 1(3) show ?case
  proof (cases rule: wf_node_cases)
    case (leaf c f')
    then show ?thesis by (simp add: prefix_free_def)
  next
    case (internal f' lt rt)
    let ?L = "map snd (code_list (Some lt) (code @ ''0''))"
    let ?R = "map snd (code_list (Some rt) (code @ ''1''))"
    from internal have v: "v = None" "l = Some lt" "r = Some rt" by simp_all
    have L: "prefix_free ?L" using 1(1)[OF _ _ _ refl] v internal by simp
    have R: "prefix_free ?R" using 1(2)[OF _ _ _ refl] v internal by simp
    have pl: "\<And>u. u \<in> set ?L \<Longrightarrow> prefix (code @ ''0'') u"
      by (auto dest: code_list_prefix)
    have pr: "\<And>u. u \<in> set ?R \<Longrightarrow> prefix (code @ ''1'') u"
      by (auto dest: code_list_prefix)
    have cross: "\<And>u w. u \<in> set ?L \<Longrightarrow> w \<in> set ?R \<Longrightarrow> \<not> prefix u w \<and> \<not> prefix w u"
    proof -
      fix u w assume u: "u \<in> set ?L" and w: "w \<in> set ?R"
      have ne: "CHR ''0'' \<noteq> CHR ''1''" by simp
      have "\<not> prefix u w"
      proof
        assume "prefix u w"
        with pl[OF u] have "prefix (code @ ''0'') w" by (rule prefix_order.order_trans)
        from prefix_snoc_diff[OF this pr[OF w]] ne show False by simp
      qed
      moreover have "\<not> prefix w u"
      proof
        assume "prefix w u"
        with pr[OF w] have "prefix (code @ ''1'') u" by (rule prefix_order.order_trans)
        from prefix_snoc_diff[OF pl[OF u] this] ne show False by simp
      qed
      ultimately show "\<not> prefix u w \<and> \<not> prefix w u" by simp
    qed
    have eq: "map snd (code_list (Some (BinaryTreeNode v f l r)) code) = ?L @ ?R"
      using v by simp
    have "distinct (?L @ ?R)"
      using L R cross by (auto simp: prefix_free_def)
    moreover have "\<forall>u \<in> set (?L @ ?R). \<forall>w \<in> set (?L @ ?R). prefix u w \<longrightarrow> u = w"
      using L R cross unfolding prefix_free_def set_append by blast
    ultimately show ?thesis unfolding eq prefix_free_def by blast
  qed
qed

lemma wf_internal_codes_longer:
  "wf_node t \<Longrightarrow> val t = None \<Longrightarrow> e \<in> set (code_list (Some t) code) \<Longrightarrow> length code < length (snd e)"
proof (erule wf_node_cases, goal_cases)
  case (1 c f)
  then show ?case by simp
next
  case (2 f lt rt)
  then have "prefix (code @ ''0'') (snd e) \<or> prefix (code @ ''1'') (snd e)"
    by (auto dest: code_list_prefix)
  then show ?case by (auto dest!: prefix_length_le)
qed

lemma wf_node_syms_nonempty: "wf_node t \<Longrightarrow> syms t \<noteq> []"
proof (induction t rule: wf_node.induct)
  case (1 v f l r)
  from 1(3) show ?case
  proof (cases rule: wf_node_cases)
    case (leaf c f')
    then show ?thesis by (simp add: syms_def)
  next
    case (internal f' lt rt)
    with 1(1)[OF _ _ _ refl] have "syms lt \<noteq> []" by simp
    then have "map fst (code_list (Some lt) ''0'') \<noteq> []"
      by (simp add: fst_code_list_syms)
    with internal show ?thesis by (simp add: syms_def)
  qed
qed

lemma wf_leaf_syms: "wf_node t \<Longrightarrow> val t = Some c \<Longrightarrow> syms t = [c]"
  by (erule wf_node_cases) (simp_all add: syms_def)

section \<open>The tree of a text\<close>

text \<open>The symbols of all the trees in the heap, as a multiset.\<close>

definition forest_syms :: "'a BinaryTreeNode list \<Rightarrow> 'a multiset" where
  "forest_syms heap = (\<Sum>t \<in># mset heap. mset (syms t))"

lemma forest_syms_cong: "mset heap = mset heap' \<Longrightarrow> forest_syms heap = forest_syms heap'"
  by (simp add: forest_syms_def)

lemma heappop_nonempty: "heap \<noteq> [] \<Longrightarrow> \<exists>x heap'. heappop heap = Inr (x, heap')"
  by (auto simp: heappop_def Let_def)

lemma syms_leaf [simp]: "syms (new_node (Some c) f) = [c]"
  by (simp add: syms_def new_node_def)

lemma wf_leaf [simp]: "wf_node (new_node (Some c) f)"
  by (simp add: new_node_def)

lemma syms_merged [simp]:
  "syms (BinaryTreeNode None f (Some l) (Some r)) = syms l @ syms r"
proof -
  have "syms (BinaryTreeNode None f (Some l) (Some r)) =
        map fst (code_list (Some l) ''0'') @ map fst (code_list (Some r) ''1'')"
    by (simp add: syms_def)
  then show ?thesis by (simp only: fst_code_list_syms)
qed

lemma mset_build_heap_aux:
  "mset (foldl (\<lambda>heap (v, f). heappush heap (new_node (Some v) f)) h fd) =
   mset h + mset (map (\<lambda>(v, f). new_node (Some v) f) fd)"
  by (induction fd arbitrary: h) (auto simp: mset_heappush)

lemma mset_build_heap:
  "mset (build_heap fd) = mset (map (\<lambda>(v, f). new_node (Some v) f) fd)"
  by (simp add: build_heap_def mset_build_heap_aux)

lemma build_heap_props:
  "length (build_heap fd) = length fd"
  "\<forall>t \<in> set (build_heap fd). wf_node t"
  "forest_syms (build_heap fd) = mset (map fst fd)"
proof -
  have m: "mset (build_heap fd) = mset (map (\<lambda>(v, f). new_node (Some v) f) fd)"
    by (rule mset_build_heap)
  from m have "size (mset (build_heap fd)) = size (mset (map (\<lambda>(v, f). new_node (Some v) f) fd))"
    by simp
  then show "length (build_heap fd) = length fd" by simp
  from m have "set (build_heap fd) = set (map (\<lambda>(v, f). new_node (Some v) f) fd)"
    by (rule mset_eq_setD)
  then show "\<forall>t \<in> set (build_heap fd). wf_node t" by auto
  have "forest_syms (build_heap fd) = forest_syms (map (\<lambda>(v, f). new_node (Some v) f) fd)"
    using m by (rule forest_syms_cong)
  also have "\<dots> = mset (map fst fd)"
    by (induction fd) (auto simp: forest_syms_def)
  finally show "forest_syms (build_heap fd) = mset (map fst fd)" .
qed

lemma build_huffman_tree_ok:
  "heap \<noteq> [] \<Longrightarrow> \<forall>t \<in> set heap. wf_node t \<Longrightarrow>
   \<exists>root. build_huffman_tree heap = Inr root \<and> wf_node root \<and> mset (syms root) = forest_syms heap"
proof (induction heap rule: build_huffman_tree.induct)
  case (1 heap)
  show ?case
  proof (cases "length heap > 1")
    case False
    with 1(2) obtain t where h: "heap = [t]" by (cases heap) auto
    with 1(3) show ?thesis
      by (simp add: build_huffman_tree_single forest_syms_def)
  next
    case True
    from heappop_nonempty[OF 1(2)] obtain l h1 where p1: "heappop heap = Inr (l, h1)" by blast
    from heappop_Inr[OF p1] have m1: "mset heap = add_mset l (mset h1)"
      and l1: "Suc (length h1) = length heap" by simp_all
    from l1 True have "h1 \<noteq> []" by auto
    from heappop_nonempty[OF this] obtain r h2 where p2: "heappop h1 = Inr (r, h2)" by blast
    from heappop_Inr[OF p2] have m2: "mset h1 = add_mset r (mset h2)" by simp
    define merged where "merged = BinaryTreeNode None (freq l + freq r) (Some l) (Some r)"
    let ?h = "heappush h2 merged"
    have mh: "mset ?h = add_mset merged (mset h2)" by (rule mset_heappush)
    have "set_mset (mset heap) = insert l (insert r (set_mset (mset h2)))"
      unfolding m1 m2 by simp
    then have sets: "set heap = insert l (insert r (set h2))" by simp
    have "set_mset (mset ?h) = insert merged (set_mset (mset h2))"
      unfolding mh by simp
    then have seth: "set ?h = insert merged (set h2)" by simp
    have wf: "\<forall>t \<in> set ?h. wf_node t"
      using 1(3) sets seth by (auto simp: merged_def)
    have ne: "?h \<noteq> []" using seth by auto
    have unf: "build_huffman_tree heap = build_huffman_tree ?h"
      using True p1 p2 by (subst build_huffman_tree.simps) (simp add: merged_def Let_def)
    from 1(1)[OF True p1 refl p2 refl merged_def ne wf]
    obtain root where r: "build_huffman_tree ?h = Inr root" "wf_node root"
       "mset (syms root) = forest_syms ?h" by blast
    have "forest_syms ?h = forest_syms heap"
      unfolding forest_syms_def mh m1 m2 by (simp add: merged_def)
    with r unf show ?thesis by simp
  qed
qed

lemma tree_of_text:
  assumes "set_iteration text ks" "text \<noteq> []"
  shows "\<exists>root. build_huffman_tree (build_heap (build_frequency_dict ks text)) = Inr root \<and>
           wf_node root \<and> distinct (syms root) \<and> set (syms root) = set text"
proof -
  let ?fd = "build_frequency_dict ks text"
  from assms have ks: "distinct ks" "set ks = set text" "ks \<noteq> []"
    by (auto simp: set_iteration_def)
  have fst: "map fst ?fd = ks" by (simp add: build_frequency_dict_def comp_def)
  have "length (build_heap ?fd) = length ks"
    by (simp add: build_heap_props(1) build_frequency_dict_def)
  with ks have ne: "build_heap ?fd \<noteq> []" by auto
  from build_huffman_tree_ok[OF ne build_heap_props(2)]
  obtain root where r: "build_huffman_tree (build_heap ?fd) = Inr root" "wf_node root"
    "mset (syms root) = forest_syms (build_heap ?fd)" by blast
  from r(3) have m: "mset (syms root) = mset ks" by (simp add: build_heap_props(3) fst)
  have d: "distinct (syms root)" using mset_eq_imp_distinct_iff[OF m] ks by simp
  have e: "set (syms root) = set text" using mset_eq_setD[OF m] ks by simp
  show ?thesis by (rule exI[of _ root]) (simp add: r(1,2) d e)
qed

section \<open>Encoding, bytes and greedy matching\<close>

lemma encode_text_ok:
  "set text \<subseteq> dom (codes st) \<Longrightarrow>
   encode_text st text = Inr (concat (map (\<lambda>c. the (codes st c)) text))"
  by (induction "text") auto

lemma convert_to_bytes_ok:
  "binary s \<Longrightarrow> length s mod 8 = 0 \<Longrightarrow>
   \<exists>bs. convert_to_bytes s = Inr bs \<and> concat (map (\<lambda>byte. format_08b (unat byte)) bs) = s"
proof (induction s rule: convert_to_bytes.induct)
  case (1 s)
  show ?case
  proof (cases "s = []")
    case True
    then show ?thesis by (subst convert_to_bytes.simps) simp
  next
    case False
    with 1(3) have len: "8 \<le> length s" by (cases "length s < 8") auto
    then have l8: "length (take 8 s) = 8" by simp
    have b8: "binary (take 8 s)" using 1(2) by (rule binary_take)
    have ne: "take 8 s \<noteq> []" using l8 by auto
    have i: "int2 (take 8 s) = Inr (bin_val (take 8 s))"
      using b8 ne by (simp add: int2_def)
    have lt: "bin_val (take 8 s) < 256" using bin_val_bound[of "take 8 s"] l8 by simp
    have bd: "binary (drop 8 s)" using 1(2) by (rule binary_drop)
    have md: "length (drop 8 s) mod 8 = 0" using 1(3) len by simp presburger
    from 1(1)[OF False i lt bd md] obtain bs where
      bs: "convert_to_bytes (drop 8 s) = Inr bs"
          "concat (map (\<lambda>byte. format_08b (unat byte)) bs) = drop 8 s" by blast
    have u: "unat (word_of_nat (bin_val (take 8 s)) :: byte) = bin_val (take 8 s)"
      using lt by (simp add: unat_of_nat)
    have c: "convert_to_bytes s = Inr (word_of_nat (bin_val (take 8 s)) # bs)"
      using False i lt bs(1) by (subst convert_to_bytes.simps) simp
    have "format_08b (bin_val (take 8 s)) @ drop 8 s = s"
      using format_08b_bin_val[OF l8 b8] by simp
    with c u bs(2) show ?thesis by simp
  qed
qed

lemma remove_padding_add_padding: "remove_padding (add_padding B) = Inr B"
proof -
  let ?p = "8 - length B mod 8"
  let ?f = "format_08b ?p" and ?z = "replicate ?p (CHR ''0'')"
  have l: "length ?f = 8" by simp
  have p: "?p \<noteq> 0" by simp
  have ap: "add_padding B = ?f @ (B @ ?z)" by (simp add: add_padding_def Let_def)
  have "drop 8 (take (length (?f @ (B @ ?z)) - ?p) (?f @ (B @ ?z))) = take (length (B @ ?z) - ?p) (B @ ?z)"
    using l by (rule drop_header_take)
  also have "\<dots> = B" by simp
  finally show ?thesis
    unfolding ap using l p by (simp add: remove_padding_def Let_def del: length_append)
qed

text \<open>
  What greedy matching needs of the reverse dictionary: the empty string is not a key
  and no key is a proper prefix of another key.
\<close>

definition table_ok :: "'a FileCompression \<Rightarrow> bool" where
  "table_ok st = ([] \<notin> dom (reverse_codes st) \<and>
     (\<forall>u \<in> dom (reverse_codes st). \<forall>v \<in> dom (reverse_codes st). prefix u v \<longrightarrow> u = v))"

lemma decode_one_aux:
  assumes "table_ok st" "reverse_codes st (cur @ w) = Some c" "w \<noteq> []"
  shows "decode_text_loop st (w @ rest) cur out = decode_text_loop st rest [] (out @ [c])"
  using assms(2,3)
proof (induction w arbitrary: cur)
  case Nil
  then show ?case by simp
next
  case (Cons b w)
  show ?case
  proof (cases "w = []")
    case True
    with Cons(2) show ?thesis by simp
  next
    case False
    have full: "cur @ b # w \<in> dom (reverse_codes st)" using Cons(2) by auto
    have "reverse_codes st (cur @ [b]) = None"
    proof (rule ccontr)
      assume "reverse_codes st (cur @ [b]) \<noteq> None"
      then have "cur @ [b] \<in> dom (reverse_codes st)" by auto
      moreover have "prefix (cur @ [b]) (cur @ b # w)" by simp
      ultimately have "cur @ [b] = cur @ b # w"
        using assms(1) full unfolding table_ok_def by blast
      with False show False by simp
    qed
    moreover have "decode_text_loop st (w @ rest) (cur @ [b]) out =
                   decode_text_loop st rest [] (out @ [c])"
      using Cons(1)[of "cur @ [b]"] Cons(2) False by simp
    ultimately show ?thesis by simp
  qed
qed

lemma decode_text_loop_ok:
  assumes "table_ok st" "\<forall>c \<in> set text. \<exists>w. codes st c = Some w \<and> reverse_codes st w = Some c"
  shows "decode_text_loop st (concat (map (\<lambda>c. the (codes st c)) text)) [] out = ([], out @ text)"
  using assms(2)
proof (induction "text" arbitrary: out)
  case Nil
  show ?case by simp
next
  case (Cons c cs)
  then obtain w where w: "codes st c = Some w" "reverse_codes st w = Some c" by auto
  with assms(1) have ne: "w \<noteq> []" by (auto simp: table_ok_def)
  have "decode_text_loop st (w @ concat (map (\<lambda>c. the (codes st c)) cs)) [] out =
        decode_text_loop st (concat (map (\<lambda>c. the (codes st c)) cs)) [] (out @ [c])"
    using decode_one_aux[OF assms(1) _ ne, of "[]" c] w(2) by simp
  with Cons w show ?case by simp
qed

section \<open>The code table after a call of compress\<close>

text \<open>The assignments made for a whole tree: \<^verbatim>\<open>self._generate_codes(root)\<close>.\<close>

definition code_table :: "'a BinaryTreeNode \<Rightarrow> ('a \<times> string) list" where
  "code_table root = code_list (Some root) []"

lemma code_table_keys: "map fst (code_table root) = syms root"
  by (simp add: code_table_def syms_def)

lemma generate_codes_table:
  assumes "wf_node root" "distinct (syms root)"
  shows "(c, w) \<in> set (code_table root) \<Longrightarrow>
           codes (generate_codes (Some root) [] st) c = Some w \<and>
           reverse_codes (generate_codes (Some root) [] st) w = Some c"
    and "c \<notin> set (syms root) \<Longrightarrow> codes (generate_codes (Some root) [] st) c = codes st c"
    and "w \<notin> snd ` set (code_table root) \<Longrightarrow>
           reverse_codes (generate_codes (Some root) [] st) w = reverse_codes st w"
proof -
  let ?C = "code_table root"
  let ?S = "map (\<lambda>e. (snd e, fst e)) ?C"
  define st' where "st' = generate_codes (Some root) [] st"
  have cs: "codes st' = codes st ++ map_of (rev ?C)"
    by (simp add: st'_def generate_codes_foldl codes_foldl_assign code_table_def)
  have rs: "reverse_codes st' = reverse_codes st ++ map_of (rev ?S)"
    by (simp add: st'_def generate_codes_foldl reverse_codes_foldl_assign code_table_def)
  have dk: "distinct (map fst (rev ?C))"
    using assms(2) by (simp add: code_table_keys rev_map[symmetric])
  have "prefix_free (map snd ?C)"
    unfolding code_table_def using assms(1) by (rule wf_node_prefix_free)
  then have "distinct (map snd ?C)" by (simp add: prefix_free_def)
  then have dv: "distinct (map fst (rev ?S))"
    by (simp add: rev_map[symmetric] comp_def)
  show "codes (generate_codes (Some root) [] st) c = Some w \<and>
        reverse_codes (generate_codes (Some root) [] st) w = Some c" if m: "(c, w) \<in> set ?C"
  proof -
    from m have "(c, w) \<in> set (rev ?C)" by simp
    with dk have 1: "map_of (rev ?C) c = Some w" by (rule map_of_is_SomeI)
    from m have "(w, c) \<in> set (rev ?S)" by force
    with dv have 2: "map_of (rev ?S) w = Some c" by (rule map_of_is_SomeI)
    from 1 2 show ?thesis by (simp add: cs rs st'_def[symmetric])
  qed
  show "codes (generate_codes (Some root) [] st) c = codes st c" if "c \<notin> set (syms root)"
  proof -
    from that have "c \<notin> fst ` set (rev ?C)"
      using code_table_keys[of root] by (metis set_map set_rev)
    then have "map_of (rev ?C) c = None" by (simp add: map_of_eq_None_iff)
    then show ?thesis by (simp add: cs map_add_def st'_def[symmetric])
  qed
  show "reverse_codes (generate_codes (Some root) [] st) w = reverse_codes st w"
    if "w \<notin> snd ` set ?C"
  proof -
    from that have "w \<notin> fst ` set (rev ?S)" by force
    then have "map_of (rev ?S) w = None" by (simp add: map_of_eq_None_iff)
    then show ?thesis by (simp add: rs map_add_def st'_def[symmetric])
  qed
qed

lemma code_table_binary: "(c, w) \<in> set (code_table root) \<Longrightarrow> binary w"
  unfolding code_table_def using code_list_binary[of "[]" "(c, w)" "Some root"] by simp

lemma syms_in_table: "c \<in> set (syms root) \<Longrightarrow> \<exists>w. (c, w) \<in> set (code_table root)"
  using code_table_keys[of root] by (metis (no_types, lifting) imageE prod.collapse set_map)

lemma length_add_padding: "length (add_padding B) mod 8 = 0"
proof -
  have "length (format_08b (8 - length B mod 8)) = 8" by simp
  then show ?thesis by (simp add: add_padding_def Let_def) presburger
qed

lemma binary_concat: "\<forall>w \<in> set ws. binary w \<Longrightarrow> binary (concat ws)"
  by (induction ws) auto

lemma compress_ok:
  assumes "set_iteration text ks" "text \<noteq> []"
  shows "\<exists>root data.
           build_huffman_tree (build_heap (build_frequency_dict ks text)) = Inr root \<and>
           wf_node root \<and> distinct (syms root) \<and> set (syms root) = set text \<and>
           compress ks st text = Inr (generate_codes (Some root) [] st, data) \<and>
           concat (map (\<lambda>byte. format_08b (unat byte)) data) =
             add_padding (concat (map (\<lambda>c. the (codes (generate_codes (Some root) [] st) c)) text))"
proof -
  from tree_of_text[OF assms] obtain root where
    r: "build_huffman_tree (build_heap (build_frequency_dict ks text)) = Inr root"
       "wf_node root" "distinct (syms root)" "set (syms root) = set text" by blast
  define st' where "st' = generate_codes (Some root) [] st"
  note tab = generate_codes_table[OF r(2,3), where st = st, folded st'_def]
  have cov: "\<forall>c \<in> set text. \<exists>w. codes st' c = Some w \<and> binary w"
  proof
    fix c assume "c \<in> set text"
    with r(4) syms_in_table[of c root] obtain w where w: "(c, w) \<in> set (code_table root)" by auto
    with tab(1)[OF w] code_table_binary[OF w] show "\<exists>w. codes st' c = Some w \<and> binary w" by simp
  qed
  let ?B = "concat (map (\<lambda>c. the (codes st' c)) text)"
  have enc: "encode_text st' text = Inr ?B"
    using cov by (intro encode_text_ok) auto
  have "binary ?B" using cov by (intro binary_concat) auto
  then have b: "binary (add_padding ?B)" by (simp add: add_padding_def Let_def)
  have m: "length (add_padding ?B) mod 8 = 0"
    by (rule length_add_padding)
  from convert_to_bytes_ok[OF b m] obtain data where
    d: "convert_to_bytes (add_padding ?B) = Inr data"
       "concat (map (\<lambda>byte. format_08b (unat byte)) data) = add_padding ?B" by blast
  have "compress ks st text = Inr (st', data)"
    using r(1) enc d(1) by (simp add: compress_def Let_def st'_def)
  with r d(2) show ?thesis unfolding st'_def by blast
qed

lemma compress_Nil: "compress [] st [] = Inl IndexError"
  by (simp add: compress_def build_frequency_dict_def build_heap_def build_huffman_tree_Nil)

lemma init_table:
  assumes "wf_node root" "distinct (syms root)"
  shows "codes (generate_codes (Some root) [] init) c = Some w \<longleftrightarrow> (c, w) \<in> set (code_table root)"
    and "reverse_codes (generate_codes (Some root) [] init) w = Some c \<longleftrightarrow> (c, w) \<in> set (code_table root)"
proof -
  note tab = generate_codes_table[OF assms, where st = init]
  show "codes (generate_codes (Some root) [] init) c = Some w \<longleftrightarrow> (c, w) \<in> set (code_table root)"
  proof
    assume a: "codes (generate_codes (Some root) [] init) c = Some w"
    have "c \<in> set (syms root)"
    proof (rule ccontr)
      assume "c \<notin> set (syms root)"
      from tab(2)[OF this] a show False by (simp add: init_def)
    qed
    then obtain w' where w': "(c, w') \<in> set (code_table root)" using syms_in_table by fast
    from tab(1)[OF w'] a have "w' = w" by simp
    with w' show "(c, w) \<in> set (code_table root)" by simp
  next
    assume "(c, w) \<in> set (code_table root)"
    from tab(1)[OF this] show "codes (generate_codes (Some root) [] init) c = Some w" by simp
  qed
  show "reverse_codes (generate_codes (Some root) [] init) w = Some c \<longleftrightarrow> (c, w) \<in> set (code_table root)"
  proof
    assume a: "reverse_codes (generate_codes (Some root) [] init) w = Some c"
    have "w \<in> snd ` set (code_table root)"
    proof (rule ccontr)
      assume "w \<notin> snd ` set (code_table root)"
      from tab(3)[OF this] a show False by (simp add: init_def)
    qed
    then obtain c' where c': "(c', w) \<in> set (code_table root)" by force
    from tab(1)[OF c'] a have "c' = c" by simp
    with c' show "(c, w) \<in> set (code_table root)" by simp
  next
    assume "(c, w) \<in> set (code_table root)"
    from tab(1)[OF this] show "reverse_codes (generate_codes (Some root) [] init) w = Some c" by simp
  qed
qed

lemma table_prefix_free:
  assumes "wf_node root" "(a, u) \<in> set (code_table root)" "(b, v) \<in> set (code_table root)"
    "prefix u v"
  shows "u = v"
proof -
  have "prefix_free (map snd (code_table root))"
    unfolding code_table_def using assms(1) by (rule wf_node_prefix_free)
  moreover have "u \<in> set (map snd (code_table root))" "v \<in> set (map snd (code_table root))"
    using assms(2,3) by force+
  ultimately show ?thesis using assms(4) unfolding prefix_free_def by blast
qed

section \<open>Two nodes of equal frequency\<close>

lemma heappush_tie: "freq y = freq x \<Longrightarrow> heappush [x] y = [x, y]"
  by (simp add: heappush_def siftdown_def siftdown_loop.simps[of "[x, y]"] node_lt_def)

lemma heappop_pair: "heappop [x, y] = Inr (x, [y])"
  by (simp add: heappop_def siftup_def siftup_loop.simps[of "[y]"] siftdown_def
        siftdown_loop.simps[of "[y]"])

lemma heappop_single: "heappop [y] = Inr (y, [])"
  by (simp add: heappop_def)

lemma build_huffman_tree_pair:
  "build_huffman_tree [x, y] = Inr (BinaryTreeNode None (freq x + freq y) (Some x) (Some y))"
  by (subst build_huffman_tree.simps)
     (simp add: heappop_pair heappop_single heappush_Nil build_huffman_tree_single)

section \<open>The heap order\<close>

text \<open>The index of the parent of position \<open>i\<close>, as \<^verbatim>\<open>(pos - 1) >> 1\<close> computes it.\<close>

definition parent :: "nat \<Rightarrow> nat" where
  "parent i = (i - 1) div 2"

text \<open>The heap order of \<^verbatim>\<open>heapq\<close>: no node is smaller than its parent.\<close>

definition heap_ok :: "'a BinaryTreeNode list \<Rightarrow> bool" where
  "heap_ok h = (\<forall>i. 0 < i \<and> i < length h \<longrightarrow> freq (h ! parent i) \<le> freq (h ! i))"

text \<open>
  The heap order everywhere but between \<open>pos\<close> and its parent, the children of
  \<open>pos\<close> being no smaller than that parent: the invariant of \<^verbatim>\<open>_siftdown\<close>.
\<close>

definition heap_except :: "'a BinaryTreeNode list \<Rightarrow> nat \<Rightarrow> bool" where
  "heap_except h pos =
     ((\<forall>i. 0 < i \<and> i < length h \<and> i \<noteq> pos \<longrightarrow> freq (h ! parent i) \<le> freq (h ! i)) \<and>
      (\<forall>i. 0 < i \<and> i < length h \<and> parent i = pos \<and> 0 < pos \<longrightarrow>
           freq (h ! parent pos) \<le> freq (h ! i)))"

text \<open>
  The heap order everywhere but between \<open>pos\<close> and its children, these being no
  smaller than the parent of \<open>pos\<close>: the invariant of the first loop of \<^verbatim>\<open>_siftup\<close>.
\<close>

definition hole_ok :: "'a BinaryTreeNode list \<Rightarrow> nat \<Rightarrow> bool" where
  "hole_ok h pos =
     ((\<forall>i. 0 < i \<and> i < length h \<and> parent i \<noteq> pos \<longrightarrow> freq (h ! parent i) \<le> freq (h ! i)) \<and>
      (\<forall>i. 0 < i \<and> i < length h \<and> parent i = pos \<and> 0 < pos \<longrightarrow>
           freq (h ! parent pos) \<le> freq (h ! i)))"

lemma parent_less: "0 < i \<Longrightarrow> parent i < i"
  unfolding parent_def by arith

lemma parent_child_iff: "0 < i \<Longrightarrow> parent i = pos \<longleftrightarrow> i = 2 * pos + 1 \<or> i = 2 * pos + 2"
  unfolding parent_def by arith

lemma siftdown_loop_unfold:
  "siftdown_loop heap startpos pos newitem =
     (if pos > startpos then
        (if node_lt newitem (heap ! parent pos)
         then siftdown_loop (heap[pos := heap ! parent pos]) startpos (parent pos) newitem
         else heap[pos := newitem])
      else heap[pos := newitem])"
  by (subst siftdown_loop.simps) (simp add: Let_def parent_def)

lemma heap_ok_siftdown_loop:
  "pos < length heap \<Longrightarrow> heap_except (heap[pos := x]) pos \<Longrightarrow>
   heap_ok (siftdown_loop heap 0 pos x)"
proof (induction heap "0::nat" pos x rule: siftdown_loop.induct)
  case (1 heap pos x)
  let ?pp = "parent pos"
  let ?L = "heap[pos := x]"
  note ex = "1.prems"(2)[unfolded heap_except_def length_list_update]
  show ?case
  proof (cases "0 < pos \<and> node_lt x (heap ! ?pp)")
    case False
    have "heap_ok ?L"
      unfolding heap_ok_def
    proof (intro allI impI)
      fix i assume i: "0 < i \<and> i < length ?L"
      show "freq (?L ! (parent i)) \<le> freq (?L ! i)"
      proof (cases "i = pos")
        case True
        with i False have "freq (heap ! ?pp) \<le> freq x" by (auto simp: node_lt_def)
        moreover have "?pp \<noteq> pos" using True i parent_less[of pos] by simp
        ultimately show ?thesis using True "1.prems"(1) by simp
      next
        case False
        from ex have "0 < i \<and> i < length heap \<and> i \<noteq> pos \<longrightarrow>
          freq (?L ! (parent i)) \<le> freq (?L ! i)" by (elim conjE allE[of _ i])
        with False i show ?thesis by (elim impE) (simp, assumption)
      qed
    qed
    moreover have "siftdown_loop heap 0 pos x = ?L"
      using False by (subst siftdown_loop_unfold) auto
    ultimately show ?thesis by simp
  next
    case True
    then have pos: "0 < pos" and lt: "freq x < freq (heap ! ?pp)" by (simp_all add: node_lt_def)
    have pp: "?pp < pos" using pos by (rule parent_less)
    let ?H = "heap[pos := heap ! ?pp]"
    let ?L' = "?H[?pp := x]"
    have n: "length ?L' = length heap" "length ?L = length heap" by simp_all
    have L': "\<And>i. i < length heap \<Longrightarrow>
        ?L' ! i = (if i = ?pp then x else if i = pos then heap ! ?pp else heap ! i)"
      using pp "1.prems"(1) by (simp add: nth_list_update)
    have L: "\<And>i. i < length heap \<Longrightarrow> ?L ! i = (if i = pos then x else heap ! i)"
      by (simp add: nth_list_update)
    have ex1: "freq (?L ! (parent i)) \<le> freq (?L ! i)"
      if "0 < i" "i < length heap" "i \<noteq> pos" for i
    proof -
      from ex have "0 < i \<and> i < length heap \<and> i \<noteq> pos \<longrightarrow>
          freq (?L ! (parent i)) \<le> freq (?L ! i)" by (elim conjE allE[of _ i])
      with that show ?thesis by (elim impE) (intro conjI)
    qed
    have ex2: "freq (?L ! ?pp) \<le> freq (?L ! i)"
      if "0 < i" "i < length heap" "parent i = pos" for i
    proof -
      from ex have "0 < i \<and> i < length heap \<and> parent i = pos \<and> 0 < pos \<longrightarrow>
          freq (?L ! ?pp) \<le> freq (?L ! i)" by (elim conjE allE[of _ i])
      with that pos show ?thesis by (elim impE) (intro conjI)
    qed
    have "heap_except ?L' ?pp"
      unfolding heap_except_def n
    proof (intro conjI allI impI)
      fix i assume "0 < i \<and> i < length heap \<and> i \<noteq> ?pp"
      then have i: "0 < i" "i < length heap" "i \<noteq> ?pp" by blast+
      let ?pi = "parent i"
      have pi1: "?pi < i" using i(1) by (rule parent_less)
      then have pi2: "?pi < length heap" using i(2) by linarith
      note pi = pi1 pi2
      show "freq (?L' ! ?pi) \<le> freq (?L' ! i)"
      proof (cases "i = pos")
        case True
        with lt show ?thesis using L'[of pos] L'[of ?pp] pp "1.prems"(1) by simp
      next
        case ip: False
        show ?thesis
        proof (cases "?pi = ?pp")
          case True
          from ex1[OF i(1,2) ip] have "freq (?L ! ?pp) \<le> freq (?L ! i)" using True by simp
          then have "freq (heap ! ?pp) \<le> freq (heap ! i)"
            using L[of ?pp] L[of i] ip pp i "1.prems"(1) by simp
          with lt show ?thesis using L'[of i] L'[of ?pi] i pi ip True by simp
        next
          case npp: False
          show ?thesis
          proof (cases "?pi = pos")
            case True
            from ex2[OF i(1,2) True] have "freq (heap ! ?pp) \<le> freq (heap ! i)"
              using L[of ?pp] L[of i] ip pp i "1.prems"(1) by simp
            then show ?thesis using L'[of i] L'[of ?pi] i pi ip True npp pp by simp
          next
            case False
            from ex1[OF i(1,2) ip] have "freq (heap ! ?pi) \<le> freq (heap ! i)"
              using L[of ?pi] L[of i] ip pi False i by simp
            then show ?thesis using L'[of i] L'[of ?pi] i pi ip False npp by simp
          qed
        qed
      qed
    next
      fix i assume "0 < i \<and> i < length heap \<and> parent i = ?pp \<and> 0 < ?pp"
      then have i: "0 < i" "i < length heap" "parent i = ?pp" "0 < ?pp" by blast+
      let ?g = "parent ?pp"
      have g1: "?g < ?pp" using i(4) by (rule parent_less)
      then have g2: "?g < length heap" using pp "1.prems"(1) by linarith
      note g = g1 g2
      have a: "freq (heap ! ?g) \<le> freq (heap ! ?pp)"
        using ex1[of ?pp] i(4) pp "1.prems"(1) L[of ?g] L[of ?pp] g by simp
      have ipp: "i \<noteq> ?pp" using i(1,3) parent_less[of i] by simp
      show "freq (?L' ! ?g) \<le> freq (?L' ! i)"
      proof (cases "i = pos")
        case True
        with a show ?thesis using L'[of pos] L'[of ?g] g pp "1.prems"(1) by simp
      next
        case False
        from ex1[OF i(1,2) False] have "freq (heap ! ?pp) \<le> freq (heap ! i)"
          using L[of ?pp] L[of i] False pp i "1.prems"(1) by simp
        with a show ?thesis using L'[of i] L'[of ?g] g pp i False ipp by simp
      qed
    qed
    moreover have "?pp < length ?H" using pp "1.prems"(1) by simp
    ultimately have "heap_ok (siftdown_loop ?H 0 ?pp x)"
      using "1.hyps"[OF _ refl refl] True by (simp add: parent_def)
    moreover have "siftdown_loop heap 0 pos x = siftdown_loop ?H 0 ?pp x"
      using True by (subst siftdown_loop_unfold) simp
    ultimately show ?thesis by simp
  qed
qed

lemma hole_ok_siftup_loop:
  "siftup_loop heap endpos pos = (heap', pos') \<Longrightarrow> endpos = length heap \<Longrightarrow> pos < endpos \<Longrightarrow>
   hole_ok heap pos \<Longrightarrow>
   hole_ok heap' pos' \<and> pos' < endpos \<and> endpos \<le> 2 * pos' + 1 \<and> length heap' = endpos"
proof (induction heap endpos pos arbitrary: heap' pos' rule: siftup_loop.induct)
  case (1 heap endpos pos)
  note n = "1.prems"(2) and pn = "1.prems"(3) and ho = "1.prems"(4)[unfolded hole_ok_def]
  show ?case
  proof (cases "2 * pos + 1 < endpos")
    case False
    with "1.prems"(1) have "heap' = heap" "pos' = pos"
      by (subst (asm) siftup_loop.simps, simp)+
    with False "1.prems" show ?thesis by simp
  next
    case True
    define l where "l = 2 * pos + 1"
    define c where "c = (if l + 1 < endpos \<and> \<not> node_lt (heap ! l) (heap ! (l + 1)) then l + 1 else l)"
    have ln: "l < endpos" using True by (simp add: l_def)
    have cn: "c < endpos" using ln by (simp add: c_def)
    have c0: "0 < c" by (simp add: c_def l_def)
    have pc: "parent c = pos"
      using parent_child_iff[OF c0, of pos] by (auto simp: c_def l_def)
    have cpos: "pos < c" using parent_less[OF c0] pc by simp
    have minc: "freq (heap ! c) \<le> freq (heap ! i)" if "0 < i" "i < endpos" "parent i = pos" for i
    proof -
      from parent_child_iff[OF that(1), of pos] that(3) have "i = l \<or> i = l + 1"
        by (simp add: l_def)
      then show ?thesis
      proof
        assume "i = l"
        then show ?thesis by (auto simp: c_def node_lt_def)
      next
        assume "i = l + 1"
        with that(2) show ?thesis by (auto simp: c_def node_lt_def)
      qed
    qed
    let ?H = "heap[pos := heap ! c]"
    have H: "\<And>k. k < length heap \<Longrightarrow> ?H ! k = (if k = pos then heap ! c else heap ! k)"
      by (simp add: nth_list_update)
    have ho1: "freq (heap ! parent i) \<le> freq (heap ! i)"
      if "0 < i" "i < length heap" "parent i \<noteq> pos" for i
      using ho that by blast
    have ho2: "freq (heap ! parent pos) \<le> freq (heap ! i)"
      if "0 < i" "i < length heap" "parent i = pos" "0 < pos" for i
      using ho that by blast
    have "hole_ok ?H c"
      unfolding hole_ok_def length_list_update
    proof (intro conjI allI impI)
      fix i assume "0 < i \<and> i < length heap \<and> parent i \<noteq> c"
      then have i: "0 < i" "i < length heap" "parent i \<noteq> c" by blast+
      have pi: "parent i < length heap" using parent_less[OF i(1)] i(2) by linarith
      show "freq (?H ! parent i) \<le> freq (?H ! i)"
      proof (cases "i = pos")
        case True
        then have pp: "parent pos \<noteq> pos" using parent_less[OF i(1)] by simp
        from ho2[of c] c0 cn pc i(1) True n have "freq (heap ! parent pos) \<le> freq (heap ! c)"
          by simp
        then show ?thesis using H[of pos] H[of "parent pos"] True pp pi i(2) by simp
      next
        case ip: False
        show ?thesis
        proof (cases "parent i = pos")
          case True
          from minc[OF i(1) _ True] i(2) n have "freq (heap ! c) \<le> freq (heap ! i)" by simp
          then show ?thesis using H[of i] H[of pos] ip True i(2) pn n by simp
        next
          case False
          from ho1[OF i(1,2) False] show ?thesis
            using H[of i] H[of "parent i"] ip False i(2) pi by simp
        qed
      qed
    next
      fix i assume "0 < i \<and> i < length heap \<and> parent i = c \<and> 0 < c"
      then have i: "0 < i" "i < length heap" "parent i = c" by blast+
      have "c < i" using parent_less[OF i(1)] i(3) by simp
      with cpos have ip: "i \<noteq> pos" by simp
      have "parent i \<noteq> pos" using i(3) cpos by simp
      from ho1[OF i(1,2) this] have "freq (heap ! c) \<le> freq (heap ! i)" using i(3) by simp
      then show "freq (?H ! parent c) \<le> freq (?H ! i)"
        using H[of i] H[of pos] pc ip i(2) pn n by simp
    qed
    moreover have "siftup_loop heap endpos pos = siftup_loop ?H endpos c"
      using True unfolding c_def l_def by (subst siftup_loop.simps) (simp add: Let_def)
    with "1.prems"(1) have "siftup_loop ?H endpos c = (heap', pos')" by simp
    moreover have "endpos = length ?H" using n by simp
    ultimately show ?thesis
      using "1.IH"[OF refl True refl _ _ _ cn, of heap' pos'] unfolding c_def l_def by simp
  qed
qed

lemma heap_ok_siftup:
  assumes "heap \<noteq> []" "hole_ok heap 0"
  shows "heap_ok (siftup heap 0)"
proof -
  obtain h' p' where s: "siftup_loop heap (length heap) 0 = (h', p')" by force
  from hole_ok_siftup_loop[OF s refl] assms have
    a: "hole_ok h' p'" "p' < length heap" "length heap \<le> 2 * p' + 1" "length h' = length heap"
    by simp_all
  let ?x = "heap ! 0"
  let ?H = "h'[p' := ?x]"
  have "heap_except (?H[p' := ?x]) p'"
    unfolding heap_except_def
  proof (intro conjI allI impI)
    fix i assume "0 < i \<and> i < length (?H[p' := ?x]) \<and> i \<noteq> p'"
    then have i: "0 < i" "i < length h'" "i \<noteq> p'" by simp_all
    have "parent i \<noteq> p'"
    proof
      assume "parent i = p'"
      with parent_child_iff[OF i(1), of p'] have "i = 2 * p' + 1 \<or> i = 2 * p' + 2" by simp
      with a(3,4) i(2) show False by linarith
    qed
    moreover from a(1) i this have "freq (h' ! parent i) \<le> freq (h' ! i)"
      unfolding hole_ok_def by blast
    ultimately show "freq (?H[p' := ?x] ! parent i) \<le> freq (?H[p' := ?x] ! i)"
      using i by simp
  next
    fix i assume "0 < i \<and> i < length (?H[p' := ?x]) \<and> parent i = p' \<and> 0 < p'"
    then have i: "0 < i" "i < length h'" "parent i = p'" by simp_all
    with parent_child_iff[OF i(1), of p'] have "i = 2 * p' + 1 \<or> i = 2 * p' + 2" by simp
    with a(3,4) i(2) have False by linarith
    then show "freq (?H[p' := ?x] ! parent p') \<le> freq (?H[p' := ?x] ! i)" ..
  qed
  moreover have "p' < length ?H" using a by simp
  ultimately have "heap_ok (siftdown_loop ?H 0 p' ?x)" by (rule heap_ok_siftdown_loop[rotated])
  moreover have "siftup heap 0 = siftdown_loop ?H 0 p' ?x"
    using s a by (simp add: siftup_def siftdown_def Let_def)
  ultimately show ?thesis by simp
qed

lemma heap_ok_heappush: "heap_ok heap \<Longrightarrow> heap_ok (heappush heap item)"
proof -
  assume ok: "heap_ok heap"
  let ?H = "heap @ [item]"
  have "heap_except (?H[length heap := item]) (length heap)"
    unfolding heap_except_def
  proof (intro conjI allI impI)
    fix i assume "0 < i \<and> i < length (?H[length heap := item]) \<and> i \<noteq> length heap"
    then have i: "0 < i" "i < length heap" by simp_all
    then have "parent i < length heap" using parent_less[of i] by linarith
    with ok i show "freq (?H[length heap := item] ! parent i) \<le> freq (?H[length heap := item] ! i)"
      by (simp add: heap_ok_def nth_append)
  next
    fix i assume "0 < i \<and> i < length (?H[length heap := item]) \<and> parent i = length heap \<and> 0 < length heap"
    then have "0 < i" "i \<le> length heap" "parent i = length heap" by simp_all
    with parent_less[of i] have False by simp
    then show "freq (?H[length heap := item] ! parent (length heap)) \<le> freq (?H[length heap := item] ! i)" ..
  qed
  then have "heap_ok (siftdown_loop ?H 0 (length heap) item)"
    by (intro heap_ok_siftdown_loop) simp_all
  then show ?thesis by (simp add: heappush_def siftdown_def)
qed

lemma heap_ok_min: "heap_ok h \<Longrightarrow> i < length h \<Longrightarrow> freq (h ! 0) \<le> freq (h ! i)"
proof (induction i rule: less_induct)
  case (less i)
  show ?case
  proof (cases "i = 0")
    case True then show ?thesis by simp
  next
    case False
    then have i: "0 < i" by simp
    have "parent i < i" using i by (rule parent_less)
    moreover from this less.prems have "parent i < length h" by linarith
    ultimately have "freq (h ! 0) \<le> freq (h ! parent i)" using less by blast
    moreover have "freq (h ! parent i) \<le> freq (h ! i)"
      using less.prems i by (simp add: heap_ok_def)
    ultimately show ?thesis by linarith
  qed
qed

lemma heap_ok_heappop:
  assumes "heap_ok heap" "heappop heap = Inr (x, heap')"
  shows "heap_ok heap' \<and> (\<forall>y \<in> set heap. freq x \<le> freq y)"
proof -
  have ne: "heap \<noteq> []" using assms(2) by (auto simp: heappop_def)
  then obtain h1 l where h: "heap = h1 @ [l]" by (metis append_butlast_last_id)
  have min: "\<forall>y \<in> set heap. freq (heap ! 0) \<le> freq y"
    using heap_ok_min[OF assms(1)] by (auto simp: in_set_conv_nth)
  show ?thesis
  proof (cases "h1 = []")
    case True
    with assms(2) h have "x = l" "heap' = []" by (simp_all add: heappop_def)
    with min h True show ?thesis by (simp add: heap_ok_def)
  next
    case False
    with assms(2) h have x: "x = h1 ! 0" "heap' = siftup (h1[0 := l]) 0"
      by (simp_all add: heappop_def Let_def)
    from False have x0: "x = heap ! 0" using x(1) h by (simp add: nth_append)
    have "hole_ok (h1[0 := l]) 0"
      unfolding hole_ok_def length_list_update
    proof (intro conjI allI impI)
      fix i assume "0 < i \<and> i < length h1 \<and> parent i \<noteq> 0"
      then have i: "0 < i" "i < length h1" "parent i \<noteq> 0" by blast+
      have "parent i < length h1" using parent_less[OF i(1)] i(2) by linarith
      moreover have "freq (heap ! parent i) \<le> freq (heap ! i)"
        using assms(1) i h by (simp add: heap_ok_def)
      ultimately show "freq (h1[0 := l] ! parent i) \<le> freq (h1[0 := l] ! i)"
        using i h by (simp add: nth_append)
    next
      fix i assume "0 < i \<and> i < length h1 \<and> parent i = 0 \<and> (0::nat) < 0"
      then show "freq (h1[0 := l] ! parent 0) \<le> freq (h1[0 := l] ! i)" by simp
    qed
    moreover have "h1[0 := l] \<noteq> []" using False by simp
    ultimately have "heap_ok (siftup (h1[0 := l]) 0)" by (rule heap_ok_siftup[rotated])
    with x x0 min show ?thesis by simp
  qed
qed

lemma heap_ok_build_heap: "heap_ok (build_heap fd)"
proof -
  have "heap_ok h \<Longrightarrow> heap_ok (foldl (\<lambda>heap (v, f). heappush heap (new_node (Some v) f)) h fd)" for h
    by (induction fd arbitrary: h) (auto simp: heap_ok_heappush)
  moreover have "heap_ok []" by (simp add: heap_ok_def)
  ultimately show ?thesis unfolding build_heap_def by blast
qed

section \<open>The order of the merges\<close>

text \<open>
  The node reached from \<open>t\<close> along a path of 0 (left) and 1 (right), if there is
  one: the code of a leaf is the path to it.
\<close>

fun subtree :: "'a BinaryTreeNode \<Rightarrow> string \<Rightarrow> 'a BinaryTreeNode option" where
  "subtree t [] = Some t"
| "subtree t (c # p) =
     (if c = CHR ''0'' then (case left t of None \<Rightarrow> None | Some l \<Rightarrow> subtree l p)
      else if c = CHR ''1'' then (case right t of None \<Rightarrow> None | Some r \<Rightarrow> subtree r p)
      else None)"

text \<open>
  A tree as the program builds it from the counts \<open>cnt\<close>: a leaf carries the count of
  its symbol, a merged node the sum of the frequencies of its two children.
\<close>

fun weighted :: "('a \<Rightarrow> nat) \<Rightarrow> 'a BinaryTreeNode \<Rightarrow> bool" where
  "weighted cnt (BinaryTreeNode v f l r) =
     (case (v, l, r) of
        (Some c, None, None) \<Rightarrow> f = cnt c
      | (None, Some lt, Some rt) \<Rightarrow> f = freq lt + freq rt \<and> weighted cnt lt \<and> weighted cnt rt
      | _ \<Rightarrow> False)"

text \<open>
  The invariant of the loop of \<^verbatim>\<open>_build_huffman_tree\<close> on the trees in the heap. No
  node below a root is more frequent than any root. And a node that is more frequent
  than another is no deeper in its tree than the other in its own; when the two trees
  differ, the ancestor of the other node that many levels above it is less frequent
  than the root of the first tree.
\<close>

definition forest_inv :: "'a BinaryTreeNode set \<Rightarrow> bool" where
  "forest_inv F =
     ((\<forall>t \<in> F. \<forall>p n. p \<noteq> [] \<and> subtree t p = Some n \<longrightarrow> (\<forall>r \<in> F. freq n \<le> freq r)) \<and>
      (\<forall>t \<in> F. \<forall>t' \<in> F. \<forall>p q n n'.
          subtree t p = Some n \<and> subtree t' q = Some n' \<and> freq n' < freq n \<longrightarrow>
          length p \<le> length q \<and>
          (t \<noteq> t' \<longrightarrow> (\<exists>m. subtree t' (take (length q - length p) q) = Some m \<and> freq m < freq t))))"

lemma weighted_cases:
  assumes "weighted cnt t"
  obtains (leaf) c where "t = BinaryTreeNode (Some c) (cnt c) None None"
  | (internal) lt rt where "t = BinaryTreeNode None (freq lt + freq rt) (Some lt) (Some rt)"
      "weighted cnt lt" "weighted cnt rt"
  using assms by (cases t) (auto split: option.splits)

lemma weighted_wf: "weighted cnt t \<Longrightarrow> wf_node t"
  by (induction cnt t rule: weighted.induct) (auto split: option.splits)

lemma subtree_append:
  "subtree t (p @ q) = (case subtree t p of None \<Rightarrow> None | Some m \<Rightarrow> subtree m q)"
  by (induction t p rule: subtree.induct) (auto split: option.splits)

lemma subtree_take:
  assumes "subtree t q = Some n"
  shows "\<exists>m. subtree t (take k q) = Some m"
proof -
  have "subtree t (take k q @ drop k q) = Some n" using assms by simp
  then show ?thesis unfolding subtree_append by (auto split: option.splits)
qed

lemma subtree_weighted: "weighted cnt t \<Longrightarrow> subtree t p = Some n \<Longrightarrow> weighted cnt n"
proof (induction t p rule: subtree.induct)
  case (1 t)
  then show ?case by simp
next
  case (2 t c p)
  from "2.prems"(1) show ?case
  proof (cases rule: weighted_cases)
    case (leaf s)
    with "2.prems"(2) show ?thesis by (simp split: if_splits)
  next
    case (internal lt rt)
    with 2 show ?thesis by (auto split: if_splits)
  qed
qed

lemma subtree_freq_le: "weighted cnt t \<Longrightarrow> subtree t p = Some n \<Longrightarrow> freq n \<le> freq t"
proof (induction t p rule: subtree.induct)
  case (1 t)
  then show ?case by simp
next
  case (2 t c p)
  from "2.prems"(1) show ?case
  proof (cases rule: weighted_cases)
    case (leaf s)
    with "2.prems"(2) show ?thesis by (simp split: if_splits)
  next
    case (internal lt rt)
    with 2 show ?thesis by (fastforce split: if_splits)
  qed
qed

lemma subtree_leaf: "subtree (BinaryTreeNode v f None None) p = Some n \<Longrightarrow> p = []"
  by (cases p) (auto split: if_splits)

lemma subtree_merged:
  "subtree (BinaryTreeNode None f (Some l) (Some r)) (c # p) = Some n \<longleftrightarrow>
     (c = CHR ''0'' \<and> subtree l p = Some n) \<or> (c = CHR ''1'' \<and> subtree r p = Some n)"
  by auto

lemma subtree_snoc_parent:
  assumes "weighted cnt t" "subtree t (p @ [c]) = Some m"
  shows "\<exists>m' s c'. subtree t p = Some m' \<and> freq m' = freq m + freq s \<and>
                    subtree t (p @ [c']) = Some s"
proof -
  from assms(2) obtain m' where m': "subtree t p = Some m'" "subtree m' [c] = Some m"
    unfolding subtree_append by (auto split: option.splits)
  from subtree_weighted[OF assms(1) m'(1)] show ?thesis
  proof (cases rule: weighted_cases)
    case (leaf s)
    with m'(2) show ?thesis by (simp split: if_splits)
  next
    case (internal lt rt)
    from m'(2) internal(1) consider "c = CHR ''0''" "m = lt" | "c = CHR ''1''" "m = rt"
      by (auto split: if_splits)
    then show ?thesis
    proof cases
      case 1
      have "subtree t (p @ ''1'') = Some rt" using m'(1) internal(1) by (simp add: subtree_append)
      with m'(1) internal(1) 1 show ?thesis by auto
    next
      case 2
      have "subtree t (p @ ''0'') = Some lt" using m'(1) internal(1) by (simp add: subtree_append)
      with m'(1) internal(1) 2 show ?thesis by auto
    qed
  qed
qed

lemma forest_inv_merge:
  assumes inv: "forest_inv F" and w: "\<forall>t \<in> F. weighted cnt t"
    and T1: "T1 \<in> F" and T2: "T2 \<in> F"
    and m1: "\<forall>t \<in> F. freq T1 \<le> freq t" and m2: "\<forall>t \<in> F. t \<noteq> T1 \<longrightarrow> freq T2 \<le> freq t"
    and N: "N = BinaryTreeNode None (freq T1 + freq T2) (Some T1) (Some T2)"
  shows "forest_inv (insert N (F - {T1, T2}))"
proof -
  let ?F' = "insert N (F - {T1, T2})"
  have A: "freq n \<le> freq r" if "t \<in> F" "p \<noteq> []" "subtree t p = Some n" "r \<in> F" for t p n r
    using inv that unfolding forest_inv_def by blast
  have Q: "length p \<le> length q \<and>
          (t \<noteq> t' \<longrightarrow> (\<exists>m. subtree t' (take (length q - length p) q) = Some m \<and> freq m < freq t))"
    if "t \<in> F" "t' \<in> F" "subtree t p = Some n" "subtree t' q = Some n'" "freq n' < freq n"
    for t t' p q n n'
    using inv that unfolding forest_inv_def by blast
  have fN: "freq N = freq T1 + freq T2" by (simp add: N)
  have wT: "weighted cnt T1" "weighted cnt T2" using w T1 T2 by auto
  have minb: "freq b \<le> freq r" if "b = T1 \<or> b = T2" "r \<in> F - {T1, T2}" for b r
    using that m1 m2 by auto
  \<comment> \<open>a node of the new tree below its root lies in one of the two merged trees\<close>
  have below: "\<exists>b o'. (b = T1 \<and> o' = T2 \<or> b = T2 \<and> o' = T1) \<and> subtree b p = Some n"
    if "subtree N (c # p) = Some n" for c p n
    using that unfolding N subtree_merged by auto
  have inN: "freq n \<le> freq N" if "subtree N p = Some n" for p n
  proof (cases p)
    case Nil
    with that show ?thesis by simp
  next
    case (Cons c p')
    with below[of c p' n] that obtain b where b: "b = T1 \<or> b = T2" "subtree b p' = Some n" by auto
    then have "freq n \<le> freq b" using subtree_freq_le wT by blast
    with b(1) fN show ?thesis by auto
  qed
  have partA: "freq n \<le> freq r"
    if t: "t \<in> ?F'" and p: "p \<noteq> []" and s: "subtree t p = Some n" and r: "r \<in> ?F'" for t p n r
  proof (cases "t = N")
    case True
    from p obtain c p' where pc: "p = c # p'" by (cases p) auto
    with below[of c p' n] s True obtain b where b: "b = T1 \<or> b = T2" "subtree b p' = Some n" by auto
    then have nb: "freq n \<le> freq b" using subtree_freq_le wT by blast
    show ?thesis
    proof (cases "r = N")
      case True
      with nb b(1) fN show ?thesis by auto
    next
      case False
      with r have "r \<in> F - {T1, T2}" by simp
      from minb[OF b(1) this] nb show ?thesis by simp
    qed
  next
    case False
    with t have tF: "t \<in> F" by simp
    show ?thesis
    proof (cases "r = N")
      case True
      from A[OF tF p s T1] fN True show ?thesis by simp
    next
      case False
      with r have "r \<in> F" by simp
      from A[OF tF p s this] show ?thesis .
    qed
  qed
  have partQ: "length p \<le> length q \<and>
          (t \<noteq> t' \<longrightarrow> (\<exists>m. subtree t' (take (length q - length p) q) = Some m \<and> freq m < freq t))"
    if t: "t \<in> ?F'" and t': "t' \<in> ?F'" and sp: "subtree t p = Some n"
      and sq: "subtree t' q = Some n'" and lt: "freq n' < freq n" for t t' p q n n'
  proof -
    consider (old) "t \<in> F - {T1, T2}" "t' \<in> F - {T1, T2}"
      | (right) "t \<in> F - {T1, T2}" "t' = N"
      | (left) "t = N" "t' \<in> F - {T1, T2}"
      | (both) "t = N" "t' = N"
      using t t' by auto
    then show ?thesis
    proof cases
      case old
      then show ?thesis using Q[OF _ _ sp sq lt] by simp
    next
      case right
      then have tF: "t \<in> F" and tne: "t \<noteq> T1" "t \<noteq> T2" by auto
      show ?thesis
      proof (cases q)
        case Nil
        with sq right have n': "n' = N" by simp
        have pe: "p = []"
        proof (rule ccontr)
          assume "p \<noteq> []"
          from A[OF tF this sp T1] fN n' lt show False by simp
        qed
        with sp have "n = t" by simp
        with pe Nil n' lt right show ?thesis by simp
      next
        case (Cons c q')
        with below[of c q' n'] sq right obtain b where
          b: "b = T1 \<or> b = T2" "subtree b q' = Some n'" by auto
        have bF: "b \<in> F" using b(1) T1 T2 by auto
        from Q[OF tF bF sp b(2) lt] have le: "length p \<le> length q'" by simp
        have tk: "take (length q - length p) q = c # take (length q' - length p) q'"
          using le Cons by (simp add: Suc_diff_le)
        have "subtree N (c # q') = Some n'" using sq Cons right by simp
        then have cb: "(c = CHR ''0'' \<and> subtree T1 q' = Some n') \<or> (c = CHR ''1'' \<and> subtree T2 q' = Some n')"
          unfolding N subtree_merged .
        have "\<exists>m. subtree N (take (length q - length p) q) = Some m \<and> freq m < freq t"
        proof -
          from cb show ?thesis
          proof
            assume c0: "c = CHR ''0'' \<and> subtree T1 q' = Some n'"
            from Q[OF tF T1 sp conjunct2[OF c0] lt] tne obtain m where
              "subtree T1 (take (length q' - length p) q') = Some m" "freq m < freq t" by auto
            then show ?thesis unfolding tk N using c0 by auto
          next
            assume c1: "c = CHR ''1'' \<and> subtree T2 q' = Some n'"
            from Q[OF tF T2 sp conjunct2[OF c1] lt] tne obtain m where
              "subtree T2 (take (length q' - length p) q') = Some m" "freq m < freq t" by auto
            then show ?thesis unfolding tk N using c1 by auto
          qed
        qed
        with le Cons right show ?thesis by simp
      qed
    next
      case left
      then have t'F: "t' \<in> F" and t'ne: "t' \<noteq> T1" "t' \<noteq> T2" by auto
      show ?thesis
      proof (cases p)
        case Nil
        with sp left have "n = N" by simp
        with Nil sq lt left show ?thesis by auto
      next
        case (Cons c p')
        with below[of c p' n] sp left obtain b o' where
          b: "b = T1 \<and> o' = T2 \<or> b = T2 \<and> o' = T1" "subtree b p' = Some n" by auto
        have bF: "b \<in> F" "o' \<in> F" using b(1) T1 T2 by auto
        have bt: "b \<noteq> t'" using b(1) t'ne by auto
        have fNb: "freq N = freq b + freq o'" using b(1) fN by auto
        from Q[OF bF(1) t'F b(2) sq lt] bt obtain m where
          le: "length p' \<le> length q" and
          m: "subtree t' (take (length q - length p') q) = Some m" "freq m < freq b" by auto
        have lt': "length p' < length q"
        proof (rule ccontr)
          assume "\<not> length p' < length q"
          with le have "length q - length p' = 0" by simp
          with m have "freq t' < freq b" by simp
          moreover have "freq b \<le> freq t'" using minb[of b t'] b(1) left(2) by auto
          ultimately show False by simp
        qed
        define k where "k = length q - length p"
        have k: "length q - length p' = Suc k" "k < length q"
          using lt' Cons by (simp_all add: k_def)
        have "take (Suc k) q = take k q @ [q ! k]" using k(2) by (rule take_Suc_conv_app_nth)
        with m(1) k(1) have "subtree t' (take k q @ [q ! k]) = Some m" by simp
        from subtree_snoc_parent[OF _ this] w t'F obtain m' s c' where
          m': "subtree t' (take k q) = Some m'" "freq m' = freq m + freq s"
              "subtree t' (take k q @ [c']) = Some s" by blast
        have "freq s \<le> freq o'" using A[OF t'F _ m'(3) bF(2)] by simp
        with m'(2) m(2) fNb have "freq m' < freq N" by simp
        with m'(1) lt' Cons left show ?thesis by (auto simp: k_def)
      qed
    next
      case both
      show ?thesis
      proof (cases p)
        case Nil
        with both show ?thesis by simp
      next
        case (Cons c p')
        with below[of c p' n] sp both obtain b where
          b: "b = T1 \<or> b = T2" "subtree b p' = Some n" by auto
        have bF: "b \<in> F" using b(1) T1 T2 by auto
        show ?thesis
        proof (cases q)
          case Nil
          with sq both have "n' = N" by simp
          moreover have "freq n \<le> freq N" using inN sp both by simp
          ultimately show ?thesis using lt by simp
        next
          case q: (Cons c' q')
          with below[of c' q' n'] sq both obtain b' where
            b': "b' = T1 \<or> b' = T2" "subtree b' q' = Some n'" by auto
          have b'F: "b' \<in> F" using b'(1) T1 T2 by auto
          from Q[OF bF b'F b(2) b'(2) lt] have "length p' \<le> length q'" by simp
          with Cons q both show ?thesis by simp
        qed
      qed
    qed
  qed
  show ?thesis
    unfolding forest_inv_def
  proof (intro conjI ballI allI impI)
    fix t p n r
    assume "t \<in> ?F'" "p \<noteq> [] \<and> subtree t p = Some n" "r \<in> ?F'"
    then show "freq n \<le> freq r" using partA by blast
  next
    fix t t' p q n n'
    assume "t \<in> ?F'" "t' \<in> ?F'"
      "subtree t p = Some n \<and> subtree t' q = Some n' \<and> freq n' < freq n"
    then have *: "length p \<le> length q \<and>
          (t \<noteq> t' \<longrightarrow> (\<exists>m. subtree t' (take (length q - length p) q) = Some m \<and> freq m < freq t))"
      using partQ by blast
    from * show "length p \<le> length q" by simp
    assume "t \<noteq> t'"
    with * show "\<exists>m. subtree t' (take (length q - length p) q) = Some m \<and> freq m < freq t" by simp
  qed
qed

lemma forest_syms_Cons [simp]: "forest_syms (t # h) = mset (syms t) + forest_syms h"
  by (simp add: forest_syms_def)

lemma forest_syms_Nil [simp]: "forest_syms [] = {#}"
  by (simp add: forest_syms_def)

lemma forest_syms_member: "t \<in> set h \<Longrightarrow> mset (syms t) \<subseteq># forest_syms h"
proof (induction h)
  case Nil
  then show ?case by simp
next
  case (Cons u h)
  show ?case
  proof (cases "t = u")
    case True
    then show ?thesis by simp
  next
    case False
    with Cons have "mset (syms t) \<subseteq># forest_syms h" by simp
    then show ?thesis by (simp add: subset_mset.add_increasing)
  qed
qed

lemma code_list_subtree:
  "e \<in> set (code_list t code) \<Longrightarrow>
   \<exists>u p n. t = Some u \<and> snd e = code @ p \<and> subtree u p = Some n \<and> val n = Some (fst e)"
proof (induction t code rule: code_list.induct)
  case (1 code)
  then show ?case by simp
next
  case (2 v f l r code)
  let ?t = "BinaryTreeNode v f l r"
  note ih = "2.IH" and mem = "2.prems"
  from mem consider (a) "v = Some (fst e)" "snd e = code"
    | (b) "e \<in> set (code_list l (code @ ''0''))" | (c) "e \<in> set (code_list r (code @ ''1''))"
    by (auto split: option.splits)
  then show ?case
  proof cases
    case a
    then have "snd e = code @ [] \<and> subtree ?t [] = Some ?t \<and> val ?t = Some (fst e)" by simp
    then show ?thesis by blast
  next
    case b
    from ih(1)[OF b] obtain u p n where
      u: "l = Some u" "snd e = (code @ ''0'') @ p" "subtree u p = Some n" "val n = Some (fst e)"
      by blast
    then have "snd e = code @ (CHR ''0'' # p) \<and> subtree ?t (CHR ''0'' # p) = Some n" by simp
    with u(4) show ?thesis by blast
  next
    case c
    from ih(2)[OF c] obtain u p n where
      u: "r = Some u" "snd e = (code @ ''1'') @ p" "subtree u p = Some n" "val n = Some (fst e)"
      by blast
    then have "snd e = code @ (CHR ''1'' # p) \<and> subtree ?t (CHR ''1'' # p) = Some n" by simp
    with u(4) show ?thesis by blast
  qed
qed

lemma build_huffman_tree_inv:
  "heap \<noteq> [] \<Longrightarrow> heap_ok heap \<Longrightarrow> distinct heap \<Longrightarrow> \<forall>t \<in> set heap. weighted cnt t \<Longrightarrow>
   forest_inv (set heap) \<Longrightarrow> \<forall>s. count (forest_syms heap) s \<le> 1 \<Longrightarrow>
   \<exists>root. build_huffman_tree heap = Inr root \<and> weighted cnt root \<and> forest_inv {root}"
proof (induction heap rule: build_huffman_tree.induct)
  case (1 heap)
  note ne = "1.prems"(1) and ok = "1.prems"(2) and dist = "1.prems"(3) and w = "1.prems"(4)
    and inv = "1.prems"(5) and uniq = "1.prems"(6)
  show ?case
  proof (cases "length heap > 1")
    case False
    with ne obtain t where h: "heap = [t]" by (cases heap) auto
    with w inv show ?thesis by (simp add: build_huffman_tree_single)
  next
    case True
    from heappop_nonempty[OF ne] obtain l h1 where p1: "heappop heap = Inr (l, h1)" by blast
    from heappop_Inr[OF p1] have m1: "mset heap = add_mset l (mset h1)"
      and l1: "Suc (length h1) = length heap" by simp_all
    from heap_ok_heappop[OF ok p1] have ok1: "heap_ok h1" and minl: "\<forall>y \<in> set heap. freq l \<le> freq y"
      by simp_all
    from l1 True have "h1 \<noteq> []" by auto
    from heappop_nonempty[OF this] obtain r h2 where p2: "heappop h1 = Inr (r, h2)" by blast
    from heappop_Inr[OF p2] have m2: "mset h1 = add_mset r (mset h2)" by simp
    from heap_ok_heappop[OF ok1 p2] have ok2: "heap_ok h2" and minr: "\<forall>y \<in> set h1. freq r \<le> freq y"
      by simp_all
    have "mset heap = mset (l # h1)" using m1 by simp
    from mset_eq_imp_distinct_iff[OF this] dist have d1: "l \<notin> set h1" "distinct h1" by simp_all
    have "mset h1 = mset (r # h2)" using m2 by simp
    from mset_eq_imp_distinct_iff[OF this] d1(2) have d2: "r \<notin> set h2" "distinct h2" by simp_all
    have "set_mset (mset heap) = insert l (set_mset (mset h1))" unfolding m1 by simp
    then have s1: "set heap = insert l (set h1)" by simp
    have "set_mset (mset h1) = insert r (set_mset (mset h2))" unfolding m2 by simp
    then have s2: "set h1 = insert r (set h2)" by simp
    have lr: "l \<noteq> r" using d1(1) s2 by auto
    have lh2: "l \<notin> set h2" using d1(1) s2 by auto
    have sh2: "set h2 = set heap - {l, r}" using s1 s2 d1(1) d2(1) by auto
    define merged where "merged = BinaryTreeNode None (freq l + freq r) (Some l) (Some r)"
    let ?h = "heappush h2 merged"
    have mh: "mset ?h = add_mset merged (mset h2)" by (rule mset_heappush)
    have "set_mset (mset ?h) = insert merged (set_mset (mset h2))" unfolding mh by simp
    then have seth: "set ?h = insert merged (set heap - {l, r})" using sh2 by simp
    have lF: "l \<in> set heap" "r \<in> set heap" using s1 s2 by auto
    have wl: "weighted cnt l" "weighted cnt r" using w lF by auto
    have wm: "weighted cnt merged" using wl by (simp add: merged_def)
    have w': "\<forall>t \<in> set ?h. weighted cnt t" using w wm seth by auto
    have minr': "\<forall>t \<in> set heap. t \<noteq> l \<longrightarrow> freq r \<le> freq t" using minr s1 by auto
    have inv': "forest_inv (set ?h)"
      unfolding seth using inv w lF minl minr' merged_def by (rule forest_inv_merge)
    have ok': "heap_ok ?h" using ok2 by (rule heap_ok_heappush)
    have fs: "forest_syms heap = mset (syms l) + (mset (syms r) + forest_syms h2)"
      unfolding forest_syms_def m1 m2 by simp
    have fs': "forest_syms ?h = forest_syms heap"
      unfolding fs unfolding forest_syms_def mh by (simp add: merged_def)
    have uniq': "\<forall>s. count (forest_syms ?h) s \<le> 1" using uniq fs' by simp
    have mnot: "merged \<notin> set h2"
    proof
      assume "merged \<in> set h2"
      from forest_syms_member[OF this] have "mset (syms l) \<subseteq># forest_syms h2"
        by (simp add: merged_def subset_mset.dual_order.trans)
      then have sub: "mset (syms l) + mset (syms l) \<subseteq># forest_syms heap"
        unfolding fs by (simp add: subset_mset.add_increasing)
      from wf_node_syms_nonempty[OF weighted_wf[OF wl(1)]] obtain s where s: "s \<in> set (syms l)"
        by (cases "syms l") auto
      then have "2 \<le> count (mset (syms l) + mset (syms l)) s"
        using count_list_0_iff[of "syms l" s] by (simp add: count_mset)
      also have "\<dots> \<le> count (forest_syms heap) s" using sub by (rule mset_subset_eq_count)
      finally show False using uniq[rule_format, of s] by simp
    qed
    have "mset ?h = mset (merged # h2)" using mh by simp
    from mset_eq_imp_distinct_iff[OF this] mnot d2(2) have dist': "distinct ?h" by simp
    have ne': "?h \<noteq> []" using seth by auto
    have unf: "build_huffman_tree heap = build_huffman_tree ?h"
      using True p1 p2 by (subst build_huffman_tree.simps) (simp add: merged_def Let_def)
    from "1.IH"[OF True p1 refl p2 refl merged_def ne' ok' dist' w' inv' uniq'] unf
    show ?thesis by simp
  qed
qed

lemma forest_inv_leaves:
  assumes "\<forall>t \<in> F. \<exists>v f. t = new_node (Some v) f"
  shows "forest_inv F"
proof -
  have leaf: "p = [] \<and> n = t" if "t \<in> F" "subtree t p = Some n" for t p n
  proof -
    from assms that(1) obtain v f where "t = BinaryTreeNode (Some v) f None None"
      by (auto simp: new_node_def)
    with that(2) subtree_leaf[of "Some v" f p n] show ?thesis by auto
  qed
  show ?thesis
    unfolding forest_inv_def
  proof (intro conjI ballI allI impI)
    fix t p n r assume "t \<in> F" "p \<noteq> [] \<and> subtree t p = Some n" "r \<in> F"
    with leaf[of t p n] show "freq n \<le> freq r" by simp
  next
    fix t t' p q n n'
    assume a: "t \<in> F" "t' \<in> F" "subtree t p = Some n \<and> subtree t' q = Some n' \<and> freq n' < freq n"
    from leaf[of t p n] leaf[of t' q n'] a have e: "p = []" "n = t" "q = []" "n' = t'" by simp_all
    then show "length p \<le> length q" by simp
    from e a show "\<exists>m. subtree t' (take (length q - length p) q) = Some m \<and> freq m < freq t"
      by simp
  qed
qed

lemma tree_of_text_inv:
  assumes "set_iteration text ks" "text \<noteq> []"
  shows "\<exists>root. build_huffman_tree (build_heap (build_frequency_dict ks text)) = Inr root \<and>
           weighted (count_list text) root \<and> forest_inv {root}"
proof -
  let ?fd = "build_frequency_dict ks text"
  let ?leaf = "\<lambda>c. new_node (Some c) (count_list text c)"
  from assms have ks: "distinct ks" "set ks = set text" "ks \<noteq> []"
    by (auto simp: set_iteration_def)
  have lv: "map (\<lambda>(v, f). new_node (Some v) f) ?fd = map ?leaf ks"
    by (simp add: build_frequency_dict_def)
  have m: "mset (build_heap ?fd) = mset (map ?leaf ks)"
    using mset_build_heap[of ?fd] lv by simp
  have st: "set (build_heap ?fd) = ?leaf ` set ks"
    using mset_eq_setD[OF m] by simp
  have "inj_on ?leaf (set ks)" by (auto simp: inj_on_def new_node_def)
  with ks(1) have "distinct (map ?leaf ks)" by (simp add: distinct_map)
  with mset_eq_imp_distinct_iff[OF m] have dist: "distinct (build_heap ?fd)" by simp
  have w: "\<forall>t \<in> set (build_heap ?fd). weighted (count_list text) t"
    unfolding st by (auto simp: new_node_def)
  have inv: "forest_inv (set (build_heap ?fd))"
    unfolding st by (rule forest_inv_leaves) auto
  have "forest_syms (build_heap ?fd) = mset ks"
    by (simp add: build_heap_props(3) build_frequency_dict_def comp_def)
  then have uniq: "\<forall>s. count (forest_syms (build_heap ?fd)) s \<le> 1"
    using ks(1) by (simp add: distinct_count_atmost_1)
  have "length (build_heap ?fd) = length ks"
    by (simp add: build_heap_props(1) build_frequency_dict_def)
  with ks(3) have ne: "build_heap ?fd \<noteq> []" by auto
  from build_huffman_tree_inv[OF ne heap_ok_build_heap dist w inv uniq] show ?thesis .
qed

section \<open>The claims\<close>

subsection \<open>Round trip\<close>

text \<open>
  Claim C1, as the code has it. For a text with at least two distinct symbols,
  compressed on a freshly constructed instance (both dictionaries empty, as
  \<^verbatim>\<open>__init__\<close> leaves them), \<open>compress\<close> succeeds, and \<open>decompress\<close> on the same
  instance, with the code table the call left there, turns the bytes back into the
  text, whatever the order in which the symbols are iterated.
\<close>

theorem round_trip:
  assumes "set_iteration text ks" and "2 \<le> card (set text)"
  shows "\<exists>st data. compress ks init text = Inr (st, data) \<and> decompress st data = Inr text"
proof -
  from assms(2) have ne: "text \<noteq> []" by auto
  from compress_ok[OF assms(1) ne, of init] obtain root data where
    r: "wf_node root" "distinct (syms root)" "set (syms root) = set text"
       "compress ks init text = Inr (generate_codes (Some root) [] init, data)"
       "concat (map (\<lambda>byte. format_08b (unat byte)) data) =
          add_padding (concat (map (\<lambda>c. the (codes (generate_codes (Some root) [] init) c)) text))"
    by blast
  let ?st = "generate_codes (Some root) [] init"
  let ?B = "concat (map (\<lambda>c. the (codes ?st c)) text)"
  note it = init_table[OF r(1,2)]
  have internal: "val root = None"
  proof (rule ccontr)
    assume "val root \<noteq> None"
    then obtain c where "val root = Some c" by auto
    from wf_leaf_syms[OF r(1) this] r(3) have "set text = {c}" by simp
    with assms(2) show False by simp
  qed
  have dom: "dom (reverse_codes ?st) = snd ` set (code_table root)"
    using it(2) by (force simp: dom_def)
  have "[] \<notin> dom (reverse_codes ?st)"
  proof
    assume "[] \<in> dom (reverse_codes ?st)"
    then obtain c where "(c, []) \<in> set (code_table root)" using it(2) by auto
    from wf_internal_codes_longer[OF r(1) internal this[unfolded code_table_def]]
    show False by simp
  qed
  moreover have "\<forall>u \<in> dom (reverse_codes ?st). \<forall>v \<in> dom (reverse_codes ?st). prefix u v \<longrightarrow> u = v"
  proof (intro ballI impI)
    fix u v assume "u \<in> dom (reverse_codes ?st)" "v \<in> dom (reverse_codes ?st)" "prefix u v"
    then obtain a b where "(a, u) \<in> set (code_table root)" "(b, v) \<in> set (code_table root)"
      using it(2) by auto
    from table_prefix_free[OF r(1) this \<open>prefix u v\<close>] show "u = v" .
  qed
  ultimately have ok: "table_ok ?st" by (simp add: table_ok_def)
  have cov: "\<forall>c \<in> set text. \<exists>w. codes ?st c = Some w \<and> reverse_codes ?st w = Some c"
  proof
    fix c assume "c \<in> set text"
    with r(3) syms_in_table[of c root] obtain w where "(c, w) \<in> set (code_table root)" by auto
    with it show "\<exists>w. codes ?st c = Some w \<and> reverse_codes ?st w = Some c" by auto
  qed
  have "decode_text ?st ?B = text"
    using decode_text_loop_ok[OF ok cov, of "[]"] by (simp add: decode_text_def)
  then have "decompress ?st data = Inr text"
    by (simp add: decompress_def r(5) remove_padding_add_padding)
  with r(4) show ?thesis by blast
qed

theorem round_trip_witness:
  "set_iteration ''abab'' ''ab'' \<and> 2 \<le> card (set ''abab'') \<and>
   (\<exists>st data. compress ''ab'' init ''abab'' = Inr (st, data) \<and> decompress st data = Inr ''abab'')"
proof -
  have h1: "set_iteration ''abab'' ''ab''" by (auto simp: set_iteration_def)
  have "set ''abab'' = {CHR ''a'', CHR ''b''}" by auto
  then have h2: "2 \<le> card (set ''abab'')" by simp
  from h1 h2 round_trip[OF h1 h2] show ?thesis by (intro conjI)
qed

text \<open>
  Claim C1 as stated, for every call of \<open>compress\<close>, fails on an instance that has
  compressed before. \<open>compress\<close> does not empty the dictionaries: after ab the reverse
  dictionary maps 1 to b, and the text cde, compressed next on the same instance, is
  encoded as 10110 and decoded with that entry still there, as bebbe.
\<close>

theorem round_trip_reused_counterexample:
  "set_iteration ''cde'' ''cde'' \<and> 2 \<le> card (set ''cde'') \<and>
   (case compress ''ab'' init ''ab'' of
      Inl e \<Rightarrow> False
    | Inr (st1, d1) \<Rightarrow>
        (case compress ''cde'' st1 ''cde'' of
           Inl e \<Rightarrow> False
         | Inr (st2, d2) \<Rightarrow>
             decompress st2 d2 = Inr ''bebbe'' \<and> decompress st2 d2 \<noteq> Inr ''cde''))"
proof -
  have "set_iteration ''cde'' ''cde''" by (auto simp: set_iteration_def)
  moreover have "set ''cde'' = {CHR ''c'', CHR ''d'', CHR ''e''}" by auto
  then have "2 \<le> card (set ''cde'')" by simp
  moreover have "case compress ''ab'' init ''ab'' of
      Inl e \<Rightarrow> False
    | Inr (st1, d1) \<Rightarrow>
        (case compress ''cde'' st1 ''cde'' of
           Inl e \<Rightarrow> False
         | Inr (st2, d2) \<Rightarrow>
             decompress st2 d2 = Inr ''bebbe'' \<and> decompress st2 d2 \<noteq> Inr ''cde'')"
    by code_simp
  ultimately show ?thesis by (intro conjI)
qed

subsection \<open>Empty input\<close>

text \<open>
  Claim C2, as the code has it. On a text of length zero \<open>compress\<close> raises, in
  whatever state the instance is: the frequency table and the heap are empty, the loop
  of \<^verbatim>\<open>_build_huffman_tree\<close> is not entered and \<^verbatim>\<open>heap[0]\<close> raises Python's
  \<open>IndexError\<close>. No bytes are produced.
\<close>

theorem compress_empty_input:
  assumes "length text = 0" and "set_iteration text ks"
  shows "compress ks st text = Inl IndexError"
proof -
  from assms have "text = []" "ks = []" by (simp_all add: set_iteration_def)
  then show ?thesis
    by (simp add: compress_def build_frequency_dict_def build_heap_def build_huffman_tree_Nil)
qed

theorem compress_empty_input_witness:
  "length ([] :: string) = 0 \<and> set_iteration ([] :: string) [] \<and>
   compress [] init ([] :: string) = Inl IndexError"
  using compress_empty_input[of "[] :: string" "[]" init] by (simp add: set_iteration_def)

text \<open>
  Claim C2 as stated names an exception of its own, EmptyInputError. The program
  defines no exception class; what the empty text raises is the built-in
  \<open>IndexError\<close>, the same exception any other out-of-range index raises.
\<close>

theorem compress_empty_counterexample:
  "compress [] (init :: char FileCompression) [] = Inl IndexError \<and>
   build_heap (build_frequency_dict [] ([] :: string)) = [] \<and>
   build_huffman_tree ([] :: char BinaryTreeNode list) = Inl IndexError"
  by (simp add: compress_def build_frequency_dict_def build_heap_def build_huffman_tree_Nil)

subsection \<open>A text with one distinct symbol\<close>

text \<open>
  Claim C3 fails on the code. For a text that repeats one symbol the root of the tree
  is the leaf itself, \<^verbatim>\<open>_generate_codes\<close> gives the symbol the empty code, the encoded
  text is empty whatever the length of the text, the compressed bytes are 8 and 0, and
  decompressing them gives the empty text, not the input.
\<close>

theorem single_symbol_empty_code:
  assumes "text = replicate (Suc n) a"
  shows "\<exists>st. compress [a] init text = Inr (st, [8, 0]) \<and> codes st a = Some [] \<and>
              reverse_codes st [] = Some a \<and> decompress st [8, 0] = Inr []"
proof -
  let ?leaf = "new_node (Some a) (Suc n)"
  let ?st = "generate_codes (Some ?leaf) [] init"
  have fd: "build_frequency_dict [a] text = [(a, Suc n)]"
    using assms by (simp add: build_frequency_dict_def)
  have root: "build_huffman_tree (build_heap (build_frequency_dict [a] text)) = Inr ?leaf"
    by (simp add: fd build_heap_def heappush_Nil build_huffman_tree_single)
  have c: "codes ?st a = Some []" "reverse_codes ?st [] = Some a"
    by (simp_all add: new_node_def init_def)
  have "encode_text ?st text = Inr (concat (replicate (Suc n) []))"
    unfolding assms using c(1) by (rule encode_text_replicate)
  then have enc: "encode_text ?st text = Inr []" by simp
  have bytes: "convert_to_bytes (add_padding []) = Inr [8, 0]" by code_simp
  have comp: "compress [a] init text = Inr (?st, [8, 0])"
    using root enc bytes by (simp add: compress_def Let_def)
  have "remove_padding (concat (map (\<lambda>byte. format_08b (unat byte)) [8, 0 :: byte])) = Inr []"
    by code_simp
  then have "decompress ?st [8, 0] = Inr []"
    by (simp add: decompress_def decode_text_def)
  with comp c show ?thesis by blast
qed

theorem single_symbol_empty_code_witness:
  "\<exists>st. compress ''a'' init ''aaaa'' = Inr (st, [8, 0]) \<and> codes st (CHR ''a'') = Some [] \<and>
        reverse_codes st [] = Some (CHR ''a'') \<and> decompress st [8, 0] = Inr []"
  using single_symbol_empty_code[of "''aaaa''" 3 "CHR ''a''"] by (simp add: numeral_3_eq_3)

subsection \<open>Malformed buffers\<close>

text \<open>
  Claim C4, as the code has it. \<open>decompress\<close> raises on the empty buffer only (the
  \<open>ValueError\<close> of \<^verbatim>\<open>int("", 2)\<close>). On every other buffer it returns a text: the body
  is what follows the first byte, cut by as many bits as the first byte says and
  empty when that is more than there are, and the decoded text is whatever greedy
  matching emitted, a candidate left unmatched at the end being dropped.
\<close>

theorem decompress_fails_only_on_empty:
  "decompress st [] = Inl ValueError \<and>
   decompress st (b # bs) =
     Inr (decode_text st
            (take (8 * length bs - unat b) (concat (map (\<lambda>byte. format_08b (unat byte)) bs))))"
proof -
  let ?f = "format_08b (unat b)" and ?r = "concat (map (\<lambda>byte. format_08b (unat byte)) bs)"
  have 1: "decompress st [] = Inl ValueError"
    by (simp add: decompress_def remove_padding_def int2_def)
  have "unat b < 256" using unsigned_less[of b] by simp
  then have l: "length ?f = 8" by simp
  have r: "length ?r = 8 * length bs" by (rule length_bits_of_bytes)
  have "drop 8 (take (length (?f @ ?r) - unat b) (?f @ ?r)) = take (8 * length bs - unat b) ?r"
    using drop_header_take[OF l, of ?r "unat b"] r by simp
  moreover have "drop 8 (?f @ ?r) = take (8 * length bs - 0) ?r"
    using l r by simp
  ultimately have "remove_padding (?f @ ?r) = Inr (take (8 * length bs - unat b) ?r)"
    using l by (auto simp: remove_padding_def Let_def)
  then have 2: "decompress st (b # bs) = Inr (decode_text st (take (8 * length bs - unat b) ?r))"
    by (simp add: decompress_def)
  from 1 2 show ?thesis by blast
qed

theorem decompress_fails_only_on_empty_witness:
  "decompress (init :: char FileCompression) [] = Inl ValueError \<and>
   decompress (init :: char FileCompression) [9, 255] = Inr []"
  using decompress_fails_only_on_empty[of "init :: char FileCompression" 9 "[255]"]
  by (simp add: decode_text_def)

text \<open>
  Claim C4 as stated fails. The one-byte buffer 255 asks for 255 padding bits where
  there are none, and the buffer (7, 128) leaves the single bit 1 as a candidate that
  matches no code of the empty table: both decompress to the empty text without an
  exception. With the table that compressing abc leaves (c is 0, a is 10, b is 11) the
  buffer (6, 64) has the body 01: the loop ends with the candidate 1 unmatched and
  \<open>decompress\<close> returns the partial text c.
\<close>

theorem decompress_silent_counterexample:
  "decompress (init :: char FileCompression) [255] = Inr [] \<and>
   remove_padding (format_08b 255) = Inr [] \<and>
   decompress (init :: char FileCompression) [7, 128] = Inr [] \<and>
   remove_padding (format_08b 7 @ format_08b 128) = Inr ''1'' \<and>
   decode_text_loop (init :: char FileCompression) ''1'' [] [] = (''1'', []) \<and>
   (case compress ''abc'' init ''abc'' of
      Inl e \<Rightarrow> False
    | Inr (st, data) \<Rightarrow>
        remove_padding (format_08b 6 @ format_08b 64) = Inr ''01'' \<and>
        decode_text_loop st ''01'' [] [] = (''1'', ''c'') \<and>
        decompress st [6, 64] = Inr ''c'')"
  by code_simp

subsection \<open>Padding\<close>

text \<open>
  Claim C5. For every bit sequence \<open>B\<close> the first 8 characters of the padded sequence
  read as the number \<open>8 - length B mod 8\<close>, which lies between 1 and 8; they are
  followed by \<open>B\<close> and by that many zeros, the total length is a multiple of 8, and
  when the length of \<open>B\<close> is a multiple of 8 the padding is 8 zeros.
\<close>

theorem padding_count_range:
  "int2 (take 8 (add_padding B)) = Inr (8 - length B mod 8)
   \<and> 1 \<le> 8 - length B mod 8 \<and> 8 - length B mod 8 \<le> 8
   \<and> drop 8 (add_padding B) = B @ replicate (8 - length B mod 8) (CHR ''0'')
   \<and> length (add_padding B) mod 8 = 0
   \<and> (length B mod 8 = 0 \<longrightarrow> drop (8 + length B) (add_padding B) = replicate 8 (CHR ''0''))"
proof -
  let ?p = "8 - length B mod 8"
  have p: "1 \<le> ?p" "?p \<le> 8" by simp_all
  have l: "length (format_08b ?p) = 8" by simp
  have ap: "add_padding B = format_08b ?p @ B @ replicate ?p (CHR ''0'')"
    by (simp add: add_padding_def Let_def)
  have 1: "int2 (take 8 (add_padding B)) = Inr ?p" using l by (simp add: ap)
  have 2: "drop 8 (add_padding B) = B @ replicate ?p (CHR ''0'')" using l by (simp add: ap)
  have 3: "length (add_padding B) mod 8 = 0" using l by (simp add: ap) presburger
  have 4: "length B mod 8 = 0 \<longrightarrow> drop (8 + length B) (add_padding B) = replicate 8 (CHR ''0'')"
    using l by (simp add: ap)
  from 1 2 3 4 p show ?thesis by blast
qed

theorem padding_count_range_witness:
  "add_padding ''01010101'' = ''0000100001010101'' @ replicate 8 (CHR ''0'') \<and>
   int2 (take 8 (add_padding ''01010101'')) = Inr 8 \<and>
   drop (8 + length ''01010101'') (add_padding ''01010101'') = replicate 8 (CHR ''0'')"
  using padding_count_range[of "''01010101''"] by (simp add: add_padding_def) code_simp

subsection \<open>The code table\<close>

text \<open>
  Claim C6, as the code has it. For a non-empty text compressed on a freshly
  constructed instance, whatever the order in which its symbols are iterated,
  \<open>compress\<close> succeeds and leaves a code table whose forward dictionary has exactly
  the symbols of the text as keys, whose reverse dictionary maps a code to a symbol
  exactly when the forward dictionary maps that symbol to that code, and in which the
  codes of two different symbols are different and neither is a prefix of the other.
\<close>

theorem code_table_prefix_free_inverse:
  assumes "set_iteration text ks" and "text \<noteq> []"
  shows "\<exists>st data. compress ks init text = Inr (st, data) \<and>
           dom (codes st) = set text \<and>
           (\<forall>c w. (codes st c = Some w) = (reverse_codes st w = Some c)) \<and>
           (\<forall>a \<in> set text. \<forall>b \<in> set text. a \<noteq> b \<longrightarrow>
              the (codes st a) \<noteq> the (codes st b) \<and>
              \<not> prefix (the (codes st a)) (the (codes st b)))"
proof -
  from compress_ok[OF assms, of init] obtain root data where
    r: "wf_node root" "distinct (syms root)" "set (syms root) = set text"
       "compress ks init text = Inr (generate_codes (Some root) [] init, data)" by blast
  let ?st = "generate_codes (Some root) [] init"
  note it = init_table[OF r(1,2)]
  have d: "dom (codes ?st) = set text"
  proof -
    have "dom (codes ?st) = fst ` set (code_table root)"
      using it(1) by (force simp: dom_def)
    also have "\<dots> = set (syms root)" using code_table_keys[of root] by (metis set_map)
    finally show ?thesis using r(3) by simp
  qed
  have inv: "\<forall>c w. (codes ?st c = Some w) = (reverse_codes ?st w = Some c)"
    using it by simp
  have pf: "\<forall>a \<in> set text. \<forall>b \<in> set text. a \<noteq> b \<longrightarrow>
              the (codes ?st a) \<noteq> the (codes ?st b) \<and>
              \<not> prefix (the (codes ?st a)) (the (codes ?st b))"
  proof (intro ballI impI)
    fix a b assume ab: "a \<in> set text" "b \<in> set text" "a \<noteq> b"
    from ab d obtain u v where uv: "codes ?st a = Some u" "codes ?st b = Some v" by blast
    then have m: "(a, u) \<in> set (code_table root)" "(b, v) \<in> set (code_table root)"
      using it(1) by simp_all
    have "\<not> prefix u v"
    proof
      assume "prefix u v"
      from table_prefix_free[OF r(1) m this] have "u = v" .
      with m it(2) have "reverse_codes ?st u = Some a" "reverse_codes ?st u = Some b" by simp_all
      with ab(3) show False by simp
    qed
    then show "the (codes ?st a) \<noteq> the (codes ?st b) \<and>
               \<not> prefix (the (codes ?st a)) (the (codes ?st b))"
      using uv by auto
  qed
  show ?thesis
    by (intro exI[of _ ?st] exI[of _ data] conjI r(4) d inv pf)
qed

theorem code_table_prefix_free_inverse_witness:
  "set_iteration ''abc'' ''cab'' \<and> ''abc'' \<noteq> [] \<and>
   (\<exists>st data. compress ''cab'' init ''abc'' = Inr (st, data) \<and>
           dom (codes st) = set ''abc'' \<and>
           (\<forall>c w. (codes st c = Some w) = (reverse_codes st w = Some c)) \<and>
           (\<forall>a \<in> set ''abc''. \<forall>b \<in> set ''abc''. a \<noteq> b \<longrightarrow>
              the (codes st a) \<noteq> the (codes st b) \<and>
              \<not> prefix (the (codes st a)) (the (codes st b))))"
proof -
  have h1: "set_iteration ''abc'' ''cab''" by (auto simp: set_iteration_def)
  have h2: "''abc'' \<noteq> []" by simp
  from h1 h2 code_table_prefix_free_inverse[OF h1 h2] show ?thesis by (intro conjI)
qed

text \<open>
  Claim C6 as stated, for every derived table, fails on an instance that has
  compressed before. After ab and then cde on one instance the forward dictionary
  maps both a and e to 0 while the reverse dictionary maps 0 to e only, and the code 1
  of b is a prefix of the code 10 of c.
\<close>

theorem reused_table_counterexample:
  "set_iteration ''cde'' ''cde'' \<and> ''cde'' \<noteq> [] \<and>
   (case compress ''ab'' init ''ab'' of
      Inl e \<Rightarrow> False
    | Inr (st1, d1) \<Rightarrow>
        (case compress ''cde'' st1 ''cde'' of
           Inl e \<Rightarrow> False
         | Inr (st2, d2) \<Rightarrow>
             codes st2 (CHR ''a'') = Some ''0'' \<and> codes st2 (CHR ''e'') = Some ''0'' \<and>
             reverse_codes st2 ''0'' = Some (CHR ''e'') \<and>
             codes st2 (CHR ''b'') = Some ''1'' \<and> codes st2 (CHR ''c'') = Some ''10'' \<and>
             prefix ''1'' ''10''))"
proof -
  have "set_iteration ''cde'' ''cde''" by (auto simp: set_iteration_def)
  moreover have "case compress ''ab'' init ''ab'' of
      Inl e \<Rightarrow> False
    | Inr (st1, d1) \<Rightarrow>
        (case compress ''cde'' st1 ''cde'' of
           Inl e \<Rightarrow> False
         | Inr (st2, d2) \<Rightarrow>
             codes st2 (CHR ''a'') = Some ''0'' \<and> codes st2 (CHR ''e'') = Some ''0'' \<and>
             reverse_codes st2 ''0'' = Some (CHR ''e'') \<and>
             codes st2 (CHR ''b'') = Some ''1'' \<and> codes st2 (CHR ''c'') = Some ''10'' \<and>
             prefix ''1'' ''10'')"
    by code_simp
  ultimately show ?thesis by simp
qed

text \<open>
  What holds of the table in every state of the instance concerns the symbols of the
  text just compressed: each has a code that the reverse dictionary maps back to it,
  and among these symbols the codes are pairwise different and none is a prefix of
  another.
\<close>

lemma current_text_codes_any_state:
  assumes "set_iteration text ks" and "text \<noteq> []"
  shows "\<exists>st' data. compress ks st text = Inr (st', data) \<and>
           (\<forall>a \<in> set text. \<exists>w. codes st' a = Some w \<and> reverse_codes st' w = Some a) \<and>
           (\<forall>a \<in> set text. \<forall>b \<in> set text. a \<noteq> b \<longrightarrow>
              the (codes st' a) \<noteq> the (codes st' b) \<and>
              \<not> prefix (the (codes st' a)) (the (codes st' b)))"
proof -
  from compress_ok[OF assms, of st] obtain root data where
    r: "wf_node root" "distinct (syms root)" "set (syms root) = set text"
       "compress ks st text = Inr (generate_codes (Some root) [] st, data)" by blast
  let ?st = "generate_codes (Some root) [] st"
  note tab = generate_codes_table(1)[OF r(1,2), where st = st]
  have entry: "\<exists>w. (a, w) \<in> set (code_table root)" if "a \<in> set text" for a
    using that r(3) syms_in_table[of a root] by simp
  have 1: "\<forall>a \<in> set text. \<exists>w. codes ?st a = Some w \<and> reverse_codes ?st w = Some a"
  proof
    fix a assume "a \<in> set text"
    from entry[OF this] obtain w where "(a, w) \<in> set (code_table root)" ..
    from tab[OF this] show "\<exists>w. codes ?st a = Some w \<and> reverse_codes ?st w = Some a" by blast
  qed
  have 2: "\<forall>a \<in> set text. \<forall>b \<in> set text. a \<noteq> b \<longrightarrow>
              the (codes ?st a) \<noteq> the (codes ?st b) \<and>
              \<not> prefix (the (codes ?st a)) (the (codes ?st b))"
  proof (intro ballI impI)
    fix a b assume ab: "a \<in> set text" "b \<in> set text" "a \<noteq> b"
    from entry[OF ab(1)] entry[OF ab(2)] obtain u v where
      m: "(a, u) \<in> set (code_table root)" "(b, v) \<in> set (code_table root)" by blast
    have "\<not> prefix u v"
    proof
      assume "prefix u v"
      from table_prefix_free[OF r(1) m this] have "u = v" .
      with tab[OF m(1)] tab[OF m(2)] ab(3) show False by simp
    qed
    then show "the (codes ?st a) \<noteq> the (codes ?st b) \<and>
               \<not> prefix (the (codes ?st a)) (the (codes ?st b))"
      using tab[OF m(1)] tab[OF m(2)] by auto
  qed
  show ?thesis by (intro exI[of _ ?st] exI[of _ data] conjI r(4) 1 2)
qed

subsection \<open>The frequency table\<close>

text \<open>
  Claim C7. For the symbols of a text iterated in any order, the frequency table maps
  every symbol of the text to the number of its occurrences and no other symbol to
  anything, its keys are pairwise different and are exactly the symbols of the text,
  and its counts add up to the length of the text.
\<close>

theorem frequency_dict_counts:
  assumes "set_iteration text ks"
  shows "map_of (build_frequency_dict ks text) =
           (\<lambda>c. if c \<in> set text then Some (count_list text c) else None)
         \<and> distinct (map fst (build_frequency_dict ks text))
         \<and> sum_list (map snd (build_frequency_dict ks text)) = length text
         \<and> fst ` set (build_frequency_dict ks text) = set text"
proof -
  from assms have d: "distinct ks" and s: "set ks = set text"
    by (simp_all add: set_iteration_def)
  have 1: "map_of (build_frequency_dict ks text) =
           (\<lambda>c. if c \<in> set text then Some (count_list text c) else None)"
    unfolding build_frequency_dict_def using s
    by (auto simp: map_of_map_restrict restrict_map_def fun_eq_iff)
  have 2: "map fst (build_frequency_dict ks text) = ks"
    by (simp add: build_frequency_dict_def comp_def)
  have 3: "map snd (build_frequency_dict ks text) = map (count_list text) ks"
    by (simp add: build_frequency_dict_def comp_def)
  have 4: "fst ` set (build_frequency_dict ks text) = set text"
    using s by (simp add: build_frequency_dict_def image_image)
  show ?thesis using 1 2 3 4 d s by (simp add: sum_list_counts)
qed

theorem frequency_dict_counts_witness:
  "set_iteration ''abab'' ''ba'' \<and>
   build_frequency_dict ''ba'' ''abab'' = [(CHR ''b'', 2), (CHR ''a'', 2)] \<and>
   sum_list (map snd (build_frequency_dict ''ba'' ''abab'')) = length ''abab''"
proof -
  have h: "set_iteration ''abab'' ''ba''" by (auto simp: set_iteration_def)
  from frequency_dict_counts[OF h] show ?thesis
    using h by (simp add: build_frequency_dict_def)
qed

subsection \<open>Frequency and code length\<close>

text \<open>
  Claim C8. For a text compressed in any state of the instance and any iteration
  order, a symbol that occurs more often than another symbol of the text gets a code
  that is no longer. Symbols that occur equally often are the case the claim leaves
  open: their codes can differ in length, as the lemma after the witness shows.
\<close>

theorem more_frequent_not_longer:
  assumes "set_iteration text ks" and "b \<in> set text"
    and "count_list text b < count_list text a"
  shows "\<exists>st' data wa wb. compress ks st text = Inr (st', data) \<and>
           codes st' a = Some wa \<and> codes st' b = Some wb \<and> length wa \<le> length wb"
proof -
  from assms(2) have ne: "text \<noteq> []" by auto
  have a: "a \<in> set text"
  proof (rule ccontr)
    assume "a \<notin> set text"
    then have "count_list text a = 0" by simp
    with assms(3) show False by simp
  qed
  from compress_ok[OF assms(1) ne, of st] obtain root data where
    r: "build_huffman_tree (build_heap (build_frequency_dict ks text)) = Inr root"
       "wf_node root" "distinct (syms root)" "set (syms root) = set text"
       "compress ks st text = Inr (generate_codes (Some root) [] st, data)" by blast
  from tree_of_text_inv[OF assms(1) ne] r(1) have
    w: "weighted (count_list text) root" and inv: "forest_inv {root}" by simp_all
  let ?st = "generate_codes (Some root) [] st"
  from a r(4) syms_in_table[of a root] syms_in_table[of b root] assms(2) obtain wa wb where
    t: "(a, wa) \<in> set (code_table root)" "(b, wb) \<in> set (code_table root)" by auto
  note tab = generate_codes_table(1)[OF r(2,3), where st = st]
  from code_list_subtree[OF t(1)[unfolded code_table_def]] obtain na where
    na: "subtree root wa = Some na" "val na = Some a" by auto
  from code_list_subtree[OF t(2)[unfolded code_table_def]] obtain nb where
    nb: "subtree root wb = Some nb" "val nb = Some b" by auto
  have fa: "freq na = count_list text a"
    using subtree_weighted[OF w na(1)] na(2) by (cases rule: weighted_cases) simp_all
  have fb: "freq nb = count_list text b"
    using subtree_weighted[OF w nb(1)] nb(2) by (cases rule: weighted_cases) simp_all
  have "freq nb < freq na" using fa fb assms(3) by simp
  with inv na(1) nb(1) have "length wa \<le> length wb"
    unfolding forest_inv_def by blast
  with tab[OF t(1)] tab[OF t(2)] r(5) show ?thesis by blast
qed

theorem more_frequent_not_longer_witness:
  "set_iteration ''aaaabbbccd'' ''dcba'' \<and> CHR ''d'' \<in> set ''aaaabbbccd'' \<and>
   count_list ''aaaabbbccd'' (CHR ''d'') < count_list ''aaaabbbccd'' (CHR ''c'') \<and>
   (\<exists>st' data wa wb. compress ''dcba'' init ''aaaabbbccd'' = Inr (st', data) \<and>
      codes st' (CHR ''c'') = Some wa \<and> codes st' (CHR ''d'') = Some wb \<and> length wa \<le> length wb)"
proof -
  have h1: "set_iteration ''aaaabbbccd'' ''dcba''" by (auto simp: set_iteration_def)
  have h2: "CHR ''d'' \<in> set ''aaaabbbccd''" by simp
  have h3: "count_list ''aaaabbbccd'' (CHR ''d'') < count_list ''aaaabbbccd'' (CHR ''c'')" by simp
  from h1 h2 h3 more_frequent_not_longer[OF h1 h2 h3, of init] show ?thesis by (intro conjI)
qed

text \<open>
  With equal counts the code lengths can differ: in abc every symbol occurs once, and
  iterated as a, b, c the symbol a gets a code of length 2 and c one of length 1.
\<close>

lemma equal_counts_different_lengths:
  "set_iteration ''abc'' ''abc'' \<and>
   count_list ''abc'' (CHR ''a'') = count_list ''abc'' (CHR ''c'') \<and>
   (case compress ''abc'' init ''abc'' of
      Inl e \<Rightarrow> False
    | Inr (st, data) \<Rightarrow> codes st (CHR ''a'') = Some ''10'' \<and> codes st (CHR ''c'') = Some ''0'')"
proof -
  have "set_iteration ''abc'' ''abc''" by (auto simp: set_iteration_def)
  moreover have "case compress ''abc'' init ''abc'' of
      Inl e \<Rightarrow> False
    | Inr (st, data) \<Rightarrow> codes st (CHR ''a'') = Some ''10'' \<and> codes st (CHR ''c'') = Some ''0''"
    by code_simp
  ultimately show ?thesis by simp
qed

subsection \<open>Ties and reproducibility\<close>

text \<open>
  Claim C9, as the code has it. The comparison of two nodes looks at their frequencies
  only, and nothing else orders nodes of equal frequency: which one is popped first
  follows from their positions in the heap list, that is from the order in which the
  symbols are iterated. For a text whose two symbols \<open>a\<close> and \<open>b\<close> occur equally often
  and are iterated as \<open>a\<close>, \<open>b\<close>, the leaf of \<open>a\<close> is popped first and becomes the left
  child: \<open>a\<close> gets the code 0 and \<open>b\<close> the code 1, in whatever state the instance is.
  Iterated as \<open>b\<close>, \<open>a\<close>, the same text gives \<open>b\<close> the code 0.
\<close>

theorem tie_decided_by_push_order:
  assumes "set_iteration text [a, b]" and "count_list text a = count_list text b"
  shows "build_huffman_tree (build_heap (build_frequency_dict [a, b] text)) =
           Inr (BinaryTreeNode None (count_list text a + count_list text b)
                  (Some (new_node (Some a) (count_list text a)))
                  (Some (new_node (Some b) (count_list text b))))
         \<and> (\<exists>st' data. compress [a, b] st text = Inr (st', data) \<and>
               codes st' a = Some ''0'' \<and> codes st' b = Some ''1'')"
proof -
  let ?A = "new_node (Some a) (count_list text a)" and ?B = "new_node (Some b) (count_list text b)"
  let ?T = "BinaryTreeNode None (count_list text a + count_list text b) (Some ?A) (Some ?B)"
  from assms(1) have ab: "a \<noteq> b" and ne: "text \<noteq> []" by (auto simp: set_iteration_def)
  have "build_heap (build_frequency_dict [a, b] text) = heappush [?A] ?B"
    by (simp add: build_heap_def build_frequency_dict_def heappush_Nil)
  also have "\<dots> = [?A, ?B]" using assms(2) by (intro heappush_tie) (simp add: new_node_def)
  finally have tree: "build_huffman_tree (build_heap (build_frequency_dict [a, b] text)) = Inr ?T"
    by (simp add: build_huffman_tree_pair new_node_def)
  from compress_ok[OF assms(1) ne, of st] tree obtain data where
    c: "compress [a, b] st text = Inr (generate_codes (Some ?T) [] st, data)" by auto
  have "codes (generate_codes (Some ?T) [] st) a = Some ''0''"
       "codes (generate_codes (Some ?T) [] st) b = Some ''1''"
    using ab by (simp_all add: new_node_def Let_def)
  with c tree show ?thesis by blast
qed

theorem tie_decided_by_push_order_witness:
  "set_iteration ''abab'' ''ba'' \<and> count_list ''abab'' (CHR ''b'') = count_list ''abab'' (CHR ''a'') \<and>
   (\<exists>st' data. compress ''ba'' init ''abab'' = Inr (st', data) \<and>
      codes st' (CHR ''b'') = Some ''0'' \<and> codes st' (CHR ''a'') = Some ''1'')"
proof -
  have h1: "set_iteration ''abab'' ''ba''" by (auto simp: set_iteration_def)
  have h2: "count_list ''abab'' (CHR ''b'') = count_list ''abab'' (CHR ''a'')" by simp
  from tie_decided_by_push_order[OF h1 h2, of init] have
    "\<exists>st' data. compress ''ba'' init ''abab'' = Inr (st', data) \<and>
      codes st' (CHR ''b'') = Some ''0'' \<and> codes st' (CHR ''a'') = Some ''1''" by (rule conjunct2)
  with h1 h2 show ?thesis by (intro conjI)
qed

text \<open>
  Claim C9 as stated fails. The text abab has the symbols a and b twice each; iterated
  as a, b and as b, a, both of which are orders of the same set, it gives two different
  trees and two different compressed files.
\<close>

theorem iteration_order_counterexample:
  "set_iteration ''abab'' ''ab'' \<and> set_iteration ''abab'' ''ba'' \<and>
   build_huffman_tree (build_heap (build_frequency_dict ''ab'' ''abab'')) \<noteq>
   build_huffman_tree (build_heap (build_frequency_dict ''ba'' ''abab'')) \<and>
   map_sum id snd (compress ''ab'' init ''abab'') \<noteq> map_sum id snd (compress ''ba'' init ''abab'')"
proof -
  have "set_iteration ''abab'' ''ab''" "set_iteration ''abab'' ''ba''"
    by (auto simp: set_iteration_def)
  moreover have "build_huffman_tree (build_heap (build_frequency_dict ''ab'' ''abab'')) \<noteq>
   build_huffman_tree (build_heap (build_frequency_dict ''ba'' ''abab''))"
    by code_simp
  moreover have "map_sum id snd (compress ''ab'' init ''abab'') \<noteq> map_sum id snd (compress ''ba'' init ''abab'')"
    by code_simp
  ultimately show ?thesis by blast
qed

subsection \<open>A second call on the same instance\<close>

text \<open>
  Claim C10. \<open>compress\<close> starts from the dictionaries as the previous call left them:
  on a non-empty text it succeeds from any state of the instance, and after the call
  the forward dictionary is unchanged at every symbol that is not in the text and the
  reverse dictionary is unchanged at every string that is not the code of a symbol of
  the text. The witness compresses ab and then cde on the same instance: the reverse
  dictionary still maps 1 to b, a symbol that is not in cde, and decompressing the
  bytes of cde gives bebbe.
\<close>

theorem stale_entries_persist:
  assumes "set_iteration text ks" and "text \<noteq> []"
  shows "\<exists>st' data. compress ks st text = Inr (st', data) \<and>
           (\<forall>c. c \<notin> set text \<longrightarrow> codes st' c = codes st c) \<and>
           (\<forall>w. w \<notin> (\<lambda>c. the (codes st' c)) ` set text \<longrightarrow>
                reverse_codes st' w = reverse_codes st w)"
proof -
  from compress_ok[OF assms, of st] obtain root data where
    r: "wf_node root" "distinct (syms root)" "set (syms root) = set text"
       "compress ks st text = Inr (generate_codes (Some root) [] st, data)" by blast
  define st' where "st' = generate_codes (Some root) [] st"
  note tab = generate_codes_table[OF r(1,2), where st = st, folded st'_def]
  have 1: "\<forall>c. c \<notin> set text \<longrightarrow> codes st' c = codes st c"
    using tab(2) r(3) by simp
  have sub: "snd ` set (code_table root) \<subseteq> (\<lambda>c. the (codes st' c)) ` set text"
  proof
    fix w assume "w \<in> snd ` set (code_table root)"
    then obtain c where m: "(c, w) \<in> set (code_table root)" by force
    then have "c \<in> set (map fst (code_table root))" by force
    then have "c \<in> set text" using r(3) by (simp only: code_table_keys)
    moreover from tab(1)[OF m] have "the (codes st' c) = w" by simp
    ultimately show "w \<in> (\<lambda>c. the (codes st' c)) ` set text" by blast
  qed
  have 2: "\<forall>w. w \<notin> (\<lambda>c. the (codes st' c)) ` set text \<longrightarrow>
              reverse_codes st' w = reverse_codes st w"
    using tab(3) sub by blast
  show ?thesis
    by (intro exI[of _ st'] exI[of _ data] conjI 1 2) (simp add: r(4) st'_def)
qed

theorem stale_entries_persist_witness:
  "\<exists>st1 d1 st2 d2.
     compress ''ab'' init ''ab'' = Inr (st1, d1) \<and>
     set_iteration ''cde'' ''cde'' \<and> compress ''cde'' st1 ''cde'' = Inr (st2, d2) \<and>
     reverse_codes st1 ''1'' = Some (CHR ''b'') \<and> reverse_codes st2 ''1'' = Some (CHR ''b'') \<and>
     codes st2 (CHR ''b'') = Some ''1'' \<and> CHR ''b'' \<notin> set ''cde'' \<and>
     decompress st2 d2 = Inr ''bebbe''"
proof -
  define T1 where "T1 = BinaryTreeNode None 2 (Some (BinaryTreeNode (Some (CHR ''a'')) 1 None None))
                          (Some (BinaryTreeNode (Some (CHR ''b'')) 1 None None))"
  define T2 where "T2 = BinaryTreeNode None 3 (Some (BinaryTreeNode (Some (CHR ''e'')) 1 None None))
      (Some (BinaryTreeNode None 2 (Some (BinaryTreeNode (Some (CHR ''c'')) 1 None None))
                                   (Some (BinaryTreeNode (Some (CHR ''d'')) 1 None None))))"
  define st1 where "st1 = generate_codes (Some T1) [] (init :: char FileCompression)"
  define st2 where "st2 = generate_codes (Some T2) [] st1"
  have t1: "build_huffman_tree (build_heap (build_frequency_dict ''ab'' ''ab'')) = Inr T1"
    unfolding T1_def by code_simp
  have t2: "build_huffman_tree (build_heap (build_frequency_dict ''cde'' ''cde'')) = Inr T2"
    unfolding T2_def by code_simp
  have e1: "encode_text st1 ''ab'' = Inr ''01''"
    by (simp add: st1_def T1_def init_def Let_def)
  have b1: "convert_to_bytes (add_padding ''01'') = Inr [6, 64]" by code_simp
  have c1: "compress ''ab'' init ''ab'' = Inr (st1, [6, 64])"
    using t1 e1 b1 by (simp add: compress_def Let_def st1_def)
  have e2: "encode_text st2 ''cde'' = Inr ''10110''"
    by (simp add: st2_def T2_def Let_def)
  have b2: "convert_to_bytes (add_padding ''10110'') = Inr [3, 176]" by code_simp
  have c2: "compress ''cde'' st1 ''cde'' = Inr (st2, [3, 176])"
    using t2 e2 b2 by (simp add: compress_def Let_def st2_def)
  have h: "set_iteration ''cde'' ''cde''" by (auto simp: set_iteration_def)
  have r1: "reverse_codes st1 ''1'' = Some (CHR ''b'')"
    by (simp add: st1_def T1_def Let_def)
  have k1: "codes st1 (CHR ''b'') = Some ''1''"
    by (simp add: st1_def T1_def Let_def)
  have cs: "codes st2 (CHR ''c'') = Some ''10''" "codes st2 (CHR ''d'') = Some ''11''"
    "codes st2 (CHR ''e'') = Some ''0''"
    by (simp_all add: st2_def T2_def Let_def)
  have "''cde'' \<noteq> []" by simp
  from stale_entries_persist[OF h this, of st1] c2 have
    keep: "(\<forall>c. c \<notin> set ''cde'' \<longrightarrow> codes st2 c = codes st1 c) \<and>
           (\<forall>w. w \<notin> (\<lambda>c. the (codes st2 c)) ` set ''cde'' \<longrightarrow>
                reverse_codes st2 w = reverse_codes st1 w)"
    by auto
  have "''1'' \<notin> (\<lambda>c. the (codes st2 c)) ` set ''cde''" using cs by simp
  with keep r1 have r2: "reverse_codes st2 ''1'' = Some (CHR ''b'')" by simp
  have "CHR ''b'' \<notin> set ''cde''" by simp
  with keep k1 have k2: "codes st2 (CHR ''b'') = Some ''1''" by simp
  have rp: "remove_padding (concat (map (\<lambda>byte. format_08b (unat byte)) [3, 176 :: byte])) = Inr ''10110''"
    by code_simp
  have rs: "reverse_codes st2 ''0'' = Some (CHR ''e'')"
    by (simp add: st2_def T2_def Let_def)
  have "decode_text st2 ''10110'' = ''bebbe''"
    by (simp add: decode_text_def r2 rs)
  with rp have d: "decompress st2 [3, 176] = Inr ''bebbe''"
    by (simp add: decompress_def)
  show ?thesis
    by (intro exI[of _ st1] exI[of _ "[6, 64]"] exI[of _ st2] exI[of _ "[3, 176]"] conjI
        c1 h c2 r1 r2 k2 d) simp
qed

end
